theory Spec2Isabelle
  imports Main
begin

section \<open>Type expressions of the graph IR: scanner, parser, serializer, registry\<close>

text \<open>
  A shallow embedding of \<^verbatim>\<open>core/graph/utils.cc\<close> (namespace \<^verbatim>\<open>LotusIR::Utils\<close>):
  the text window \<^verbatim>\<open>StringRange\<close>, the serializer \<^verbatim>\<open>OpUtils::ToString\<close>, the parser
  \<^verbatim>\<open>OpUtils::FromString\<close> with its splitter \<^verbatim>\<open>OpUtils::SplitRecords\<close>, and the interning
  functions \<^verbatim>\<open>OpUtils::ToType\<close> over the map of \<^verbatim>\<open>OpUtils::GetTypeStrToProtoMap\<close>.
  A C++ exception is the left injection of a sum, \<^verbatim>\<open>size_t\<close> is \<open>nat\<close> (every length
  here is bounded by the length of a string in memory), and the counter
  \<^verbatim>\<open>int parens\<close> is \<open>int\<close> (it moves by one per character read).
\<close>

subsection \<open>Data model\<close>

text \<open>The enumeration \<^verbatim>\<open>TensorProto::DataType\<close>, with the sixteen values the code names.\<close>

datatype DataType =
    UNDEFINED | FLOAT | UINT8 | INT8 | UINT16 | INT16 | INT32 | INT64
  | STRING | BOOL | FLOAT16 | DOUBLE | UINT32 | UINT64 | COMPLEX64 | COMPLEX128

text \<open>
  The message \<^verbatim>\<open>TypeProto\<close>: a oneof \<^verbatim>\<open>value\<close> whose case is one of six kinds or not set.
  A \<^verbatim>\<open>ValueInfoProto\<close> of a record or union is the pair of its name and its type.
\<close>

datatype TypeProto =
    VALUE_NOT_SET
  | TensorType DataType
  | SparseTensorType DataType
  | SeqType TypeProto
  | MapType DataType TypeProto
  | RecordType "(string \<times> TypeProto) list"
  | UnionType "(string \<times> TypeProto) list"

text \<open>
  What a call can end in instead of a result: \<^verbatim>\<open>std::invalid_argument\<close> with its message;
  \<open>LengthError\<close> where \<^verbatim>\<open>std::string::npos\<close> returned by \<^verbatim>\<open>Find\<close> is used as a length
  (the window and the \<^verbatim>\<open>std::string\<close> built from it leave the buffer);
  \<open>OutOfRange\<close> where an element that does not exist is read
  (\<^verbatim>\<open>field(size-1)\<close> of an empty record, \<^verbatim>\<open>find(...)->first\<close> at \<^verbatim>\<open>end()\<close>).
\<close>

datatype error = InvalidArgument string | LengthError | OutOfRange

subsection \<open>The primitive names\<close>

text \<open>
  Modelled from the spec: the string constants \<^verbatim>\<open>c_bool\<close>, ..., \<^verbatim>\<open>c_complex128\<close> of
  \<^verbatim>\<open>TypesWrapper\<close> and its set \<^verbatim>\<open>GetAllowedDataTypes()\<close> are declared in
  \<^verbatim>\<open>core/graph/constants.h\<close>, which is not among the sources. The spec gives each kind one
  canonical lowercase name, bare (``float'' for a dense tensor of 32-bit floats, ``string'',
  ``int64''), and makes the allowed names the names of this table; each constant is taken
  to spell the name its identifier carries.
\<close>

definition c_bool :: string where "c_bool = ''bool''"

definition c_string :: string where "c_string = ''string''"

definition c_float16 :: string where "c_float16 = ''float16''"

definition c_float :: string where "c_float = ''float''"

definition c_double :: string where "c_double = ''double''"

definition c_int8 :: string where "c_int8 = ''int8''"

definition c_int16 :: string where "c_int16 = ''int16''"

definition c_int32 :: string where "c_int32 = ''int32''"

definition c_int64 :: string where "c_int64 = ''int64''"

definition c_uint8 :: string where "c_uint8 = ''uint8''"

definition c_uint16 :: string where "c_uint16 = ''uint16''"

definition c_uint32 :: string where "c_uint32 = ''uint32''"

definition c_uint64 :: string where "c_uint64 = ''uint64''"

definition c_complex64 :: string where "c_complex64 = ''complex64''"

definition c_complex128 :: string where "c_complex128 = ''complex128''"

definition GetAllowedDataTypes :: "string list" where
  "GetAllowedDataTypes =
     [c_float16, c_float, c_double, c_int8, c_int16, c_int32, c_int64,
      c_uint8, c_uint16, c_uint32, c_uint64, c_complex64, c_complex128,
      c_string, c_bool]"

text \<open>\<^verbatim>\<open>OpUtils::ToString(const TensorProto::DataType&)\<close>: a switch over fifteen kinds.\<close>

fun ToString_DataType :: "DataType \<Rightarrow> error + string" where
  "ToString_DataType BOOL = Inr c_bool"
| "ToString_DataType STRING = Inr c_string"
| "ToString_DataType FLOAT16 = Inr c_float16"
| "ToString_DataType FLOAT = Inr c_float"
| "ToString_DataType DOUBLE = Inr c_double"
| "ToString_DataType INT8 = Inr c_int8"
| "ToString_DataType INT16 = Inr c_int16"
| "ToString_DataType INT32 = Inr c_int32"
| "ToString_DataType INT64 = Inr c_int64"
| "ToString_DataType UINT8 = Inr c_uint8"
| "ToString_DataType UINT16 = Inr c_uint16"
| "ToString_DataType UINT32 = Inr c_uint32"
| "ToString_DataType UINT64 = Inr c_uint64"
| "ToString_DataType COMPLEX64 = Inr c_complex64"
| "ToString_DataType COMPLEX128 = Inr c_complex128"
| "ToString_DataType UNDEFINED = Inl (InvalidArgument ''Unknown DataType'')"

text \<open>\<^verbatim>\<open>OpUtils::IsValidDataTypeString\<close>: membership in the allowed names.\<close>

definition IsValidDataTypeString :: "string \<Rightarrow> bool" where
  "IsValidDataTypeString p_dataType = (p_dataType \<in> set GetAllowedDataTypes)"

text \<open>
  \<^verbatim>\<open>OpUtils::FromString(const std::string&, TensorProto::DataType&)\<close>: the membership check,
  then a chain of comparisons in the order of the source, ending in \<open>UNDEFINED\<close>.
\<close>

definition FromString_DataType :: "string \<Rightarrow> error + DataType" where
  "FromString_DataType p_typeStr =
     (if \<not> IsValidDataTypeString p_typeStr
      then Inl (InvalidArgument (''Unknown DataType: '' @ p_typeStr))
      else if p_typeStr = c_bool then Inr BOOL
      else if p_typeStr = c_float then Inr FLOAT
      else if p_typeStr = c_float16 then Inr FLOAT16
      else if p_typeStr = c_double then Inr DOUBLE
      else if p_typeStr = c_int8 then Inr INT8
      else if p_typeStr = c_int16 then Inr INT16
      else if p_typeStr = c_int32 then Inr INT32
      else if p_typeStr = c_int64 then Inr INT64
      else if p_typeStr = c_string then Inr STRING
      else if p_typeStr = c_uint8 then Inr UINT8
      else if p_typeStr = c_uint16 then Inr UINT16
      else if p_typeStr = c_uint32 then Inr UINT32
      else if p_typeStr = c_uint64 then Inr UINT64
      else if p_typeStr = c_complex64 then Inr COMPLEX64
      else if p_typeStr = c_complex128 then Inr COMPLEX128
      else Inr UNDEFINED)"

subsection \<open>The serializer\<close>

text \<open>
  \<^verbatim>\<open>OpUtils::ToString(const TypeProto&)\<close>. The loop over the fields of a record (and the
  choices of a union) writes \<^verbatim>\<open>name:type,\<close> for every entry but the last and
  \<^verbatim>\<open>name:type)\<close> for the last, \<^verbatim>\<open>field(size-1)\<close>; with no entry at all that read is
  out of range. In the map case the two conversions are operands of one concatenation,
  whose order the language leaves open: the value is converted first here. The order
  decides only which error is reported when both conversions fail.
\<close>

fun ToString :: "TypeProto \<Rightarrow> error + string"
  and ToString_fields :: "(string \<times> TypeProto) list \<Rightarrow> error + string"
where
  "ToString (TensorType elem_type) = ToString_DataType elem_type"
| "ToString (SparseTensorType elem_type) =
     (case ToString_DataType elem_type of Inl e \<Rightarrow> Inl e
      | Inr s \<Rightarrow> Inr (''sparse('' @ s @ '')''))"
| "ToString (SeqType elem_type) =
     (case ToString elem_type of Inl e \<Rightarrow> Inl e
      | Inr s \<Rightarrow> Inr (''seq('' @ s @ '')''))"
| "ToString (MapType key_type value_type) =
     (case ToString value_type of Inl e \<Rightarrow> Inl e
      | Inr v \<Rightarrow>
          (case ToString_DataType key_type of Inl e \<Rightarrow> Inl e
           | Inr k \<Rightarrow> Inr (''map('' @ k @ '','' @ v @ '')'')))"
| "ToString (RecordType field) =
     (case ToString_fields field of Inl e \<Rightarrow> Inl e
      | Inr s \<Rightarrow> Inr (''record('' @ s))"
| "ToString (UnionType choice) =
     (case ToString_fields choice of Inl e \<Rightarrow> Inl e
      | Inr s \<Rightarrow> Inr (''union('' @ s))"
| "ToString VALUE_NOT_SET = Inl (InvalidArgument ''Unknown TypeProto'')"
| "ToString_fields [] = Inl OutOfRange"
| "ToString_fields [(name, type)] =
     (case ToString type of Inl e \<Rightarrow> Inl e
      | Inr s \<Rightarrow> Inr (name @ '':'' @ s @ '')''))"
| "ToString_fields ((name, type) # rest) =
     (case ToString type of Inl e \<Rightarrow> Inl e
      | Inr s \<Rightarrow>
          (case ToString_fields rest of Inl e \<Rightarrow> Inl e
           | Inr r \<Rightarrow> Inr (name @ '':'' @ s @ '','' @ r)))"

subsection \<open>The scanner\<close>

text \<open>
  \<^verbatim>\<open>StringRange\<close>: a window of \<open>m_size\<close> characters over a buffer it does not own.
  The three pointers \<^verbatim>\<open>m_data\<close>, \<^verbatim>\<open>m_start\<close>, \<^verbatim>\<open>m_end\<close> point into one buffer and are
  its offsets here; \<open>buf\<close> is that buffer.
\<close>

record StringRange =
  buf :: string
  m_data :: nat
  m_size :: nat
  m_start :: nat
  m_end :: nat

text \<open>\<^verbatim>\<open>std::string(s.Data(), s.Size())\<close>: the characters of the window.\<close>

definition str :: "StringRange \<Rightarrow> string" where
  "str r = take (m_size r) (drop (m_data r) (buf r))"

text \<open>\<^verbatim>\<open>isspace\<close> in the C locale.\<close>

definition isspace :: "char \<Rightarrow> bool" where
  "isspace c = (c = CHR '' '' \<or> c = CHR 0x09 \<or> c = CHR 0x0A \<or> c = CHR 0x0B
                \<or> c = CHR 0x0C \<or> c = CHR 0x0D)"

text \<open>\<^verbatim>\<open>StartsWith\<close> and \<^verbatim>\<open>EndsWith\<close>: the size test, then \<^verbatim>\<open>memcmp\<close> over the pattern's size.\<close>

definition StartsWith :: "StringRange \<Rightarrow> StringRange \<Rightarrow> bool" where
  "StartsWith r p_str =
     (m_size r \<ge> m_size p_str \<and>
      take (m_size p_str) (drop (m_data r) (buf r)) =
      take (m_size p_str) (drop (m_data p_str) (buf p_str)))"

definition EndsWith :: "StringRange \<Rightarrow> StringRange \<Rightarrow> bool" where
  "EndsWith r p_str =
     (m_size r \<ge> m_size p_str \<and>
      take (m_size p_str) (drop (m_data r + (m_size r - m_size p_str)) (buf r)) =
      take (m_size p_str) (drop (m_data p_str) (buf p_str)))"

text \<open>\<^verbatim>\<open>LStrip(size_t)\<close> and \<^verbatim>\<open>RStrip(size_t)\<close>: the result and the window after the call.\<close>

definition LStrip_n :: "nat \<Rightarrow> StringRange \<Rightarrow> bool \<times> StringRange" where
  "LStrip_n p_size r =
     (if p_size \<le> m_size r
      then (True, r\<lparr>m_data := m_data r + p_size, m_size := m_size r - p_size,
                     m_end := m_end r + p_size\<rparr>)
      else (False, r))"

definition RStrip_n :: "nat \<Rightarrow> StringRange \<Rightarrow> bool \<times> StringRange" where
  "RStrip_n p_size r =
     (if m_size r \<ge> p_size then (True, r\<lparr>m_size := m_size r - p_size\<rparr>) else (False, r))"

text \<open>\<^verbatim>\<open>LStrip(StringRange)\<close> and \<^verbatim>\<open>RStrip(StringRange)\<close>.\<close>

definition LStrip_range :: "StringRange \<Rightarrow> StringRange \<Rightarrow> bool \<times> StringRange" where
  "LStrip_range p_str r = (if StartsWith r p_str then LStrip_n (m_size p_str) r else (False, r))"

definition RStrip_range :: "StringRange \<Rightarrow> StringRange \<Rightarrow> bool \<times> StringRange" where
  "RStrip_range p_str r = (if EndsWith r p_str then RStrip_n (m_size p_str) r else (False, r))"

text \<open>
  The loop of \<^verbatim>\<open>LStrip()\<close>: \<open>count\<close> whitespace characters read from \<^verbatim>\<open>m_data\<close> on,
  and the loop of \<^verbatim>\<open>RStrip()\<close>, which reads from \<^verbatim>\<open>m_data + m_size - 1\<close> downwards.
\<close>

function LStrip_loop :: "StringRange \<Rightarrow> nat \<Rightarrow> nat" where
  "LStrip_loop r count =
     (if count < m_size r \<and> isspace (buf r ! (m_data r + count))
      then LStrip_loop r (count + 1) else count)"
  by pat_completeness auto

termination
  by (relation "measure (\<lambda>(r, count). m_size r - count)") auto

function RStrip_loop :: "StringRange \<Rightarrow> nat \<Rightarrow> nat" where
  "RStrip_loop r count =
     (if count < m_size r \<and> isspace (buf r ! (m_data r + m_size r - 1 - count))
      then RStrip_loop r (count + 1) else count)"
  by pat_completeness auto

termination
  by (relation "measure (\<lambda>(r, count). m_size r - count)") auto

declare LStrip_loop.simps [simp del] RStrip_loop.simps [simp del]

definition LStrip_ws :: "StringRange \<Rightarrow> bool \<times> StringRange" where
  "LStrip_ws r = (let count = LStrip_loop r 0 in if count > 0 then LStrip_n count r else (False, r))"

definition RStrip_ws :: "StringRange \<Rightarrow> bool \<times> StringRange" where
  "RStrip_ws r = (let count = RStrip_loop r 0 in if count > 0 then RStrip_n count r else (False, r))"

text \<open>\<^verbatim>\<open>LAndRStrip\<close>: both trims, in this order; true when either removed something.\<close>

definition LAndRStrip :: "StringRange \<Rightarrow> bool \<times> StringRange" where
  "LAndRStrip r =
     (let (l, r) = LStrip_ws r; (rr, r) = RStrip_ws r in (l \<or> rr, r))"

text \<open>
  The constructors: from a pointer and a size, from a \<^verbatim>\<open>std::string\<close>, and from a C string
  (\<^verbatim>\<open>strlen\<close> stops at the first NUL). Each trims the new window.
\<close>

definition StringRange_ptr :: "string \<Rightarrow> nat \<Rightarrow> nat \<Rightarrow> StringRange" where
  "StringRange_ptr b p_data p_size =
     snd (LAndRStrip \<lparr>buf = b, m_data = p_data, m_size = p_size, m_start = p_data, m_end = p_data\<rparr>)"

definition StringRange_str :: "string \<Rightarrow> StringRange" where
  "StringRange_str p_str =
     snd (LAndRStrip \<lparr>buf = p_str, m_data = 0, m_size = length p_str, m_start = 0, m_end = 0\<rparr>)"

definition strlen :: "string \<Rightarrow> nat" where
  "strlen p_data = length (takeWhile (\<lambda>c. c \<noteq> CHR 0x00) p_data)"

definition StringRange_cstr :: "string \<Rightarrow> StringRange" where
  "StringRange_cstr p_data =
     snd (LAndRStrip \<lparr>buf = p_data, m_data = 0, m_size = strlen p_data, m_start = 0, m_end = 0\<rparr>)"

text \<open>\<^verbatim>\<open>ParensWhitespaceStrip\<close>: five strips whose results are not looked at.\<close>

definition ParensWhitespaceStrip :: "StringRange \<Rightarrow> StringRange" where
  "ParensWhitespaceStrip r =
     (let r = snd (LStrip_ws r);
          r = snd (LStrip_range (StringRange_cstr ''('') r);
          r = snd (LAndRStrip r);
          r = snd (RStrip_range (StringRange_cstr '')'') r);
          r = snd (RStrip_ws r)
      in r)"

text \<open>
  \<^verbatim>\<open>Find\<close>: the index of the first occurrence in the window; \<open>None\<close> is
  \<^verbatim>\<open>std::string::npos\<close>.
\<close>

function Find_loop :: "StringRange \<Rightarrow> char \<Rightarrow> nat \<Rightarrow> nat option" where
  "Find_loop r p_ch idx =
     (if idx < m_size r
      then (if buf r ! (m_data r + idx) = p_ch then Some idx else Find_loop r p_ch (idx + 1))
      else None)"
  by pat_completeness auto

termination
  by (relation "measure (\<lambda>(r, p_ch, idx). m_size r - idx)") auto

declare Find_loop.simps [simp del]

definition Find :: "StringRange \<Rightarrow> char \<Rightarrow> nat option" where
  "Find r p_ch = Find_loop r p_ch 0"

text \<open>
  \<^verbatim>\<open>RestartCapture\<close> and \<^verbatim>\<open>GetCaptured\<close>. The source sets \<^verbatim>\<open>m_start\<close> and
  \<^verbatim>\<open>m_end\<close> together and then only moves \<^verbatim>\<open>m_end\<close> forward, so the difference
  \<^verbatim>\<open>m_end - m_start\<close> is never negative.
\<close>

definition RestartCapture :: "StringRange \<Rightarrow> StringRange" where
  "RestartCapture r = r\<lparr>m_start := m_data r, m_end := m_data r\<rparr>"

definition GetCaptured :: "StringRange \<Rightarrow> StringRange" where
  "GetCaptured r = StringRange_ptr (buf r) (m_start r) (m_end r - m_start r)"

subsection \<open>The window as text\<close>

text \<open>
  A window lies in its buffer when \<open>m_data + m_size\<close> does not pass the buffer's end. For
  such windows every scanner operation is a function of the text \<open>str\<close> of the window.
\<close>

definition inb :: "StringRange \<Rightarrow> bool" where
  "inb r = (m_data r + m_size r \<le> length (buf r))"

text \<open>Whitespace removed at both ends, the left end first.\<close>

definition trim :: "string \<Rightarrow> string" where
  "trim s = rev (dropWhile isspace (rev (dropWhile isspace s)))"

subsection \<open>The splitter\<close>

text \<open>
  \<^verbatim>\<open>OpUtils::SplitRecords\<close>: the loop runs while the window is not empty, and every
  branch strips one character. \<open>SplitRecords_loop\<close> returns the window left and the
  records pushed; \<open>SplitRecords\<close> restarts the capture and enters the loop with
  \<^verbatim>\<open>parens = 0\<close>. That the loop ends is proved with the properties of the scanner.
\<close>

function SplitRecords_loop ::
  "StringRange \<Rightarrow> int \<Rightarrow> StringRange list \<Rightarrow> StringRange \<times> StringRange list" where
  "SplitRecords_loop p_src parens p_records =
     (if m_size p_src > 0 then
        (if StartsWith p_src (StringRange_cstr '','') then
           (if parens = 0
            then SplitRecords_loop
                   (RestartCapture (snd (LStrip_range (StringRange_cstr '','') p_src)))
                   parens (p_records @ [GetCaptured p_src])
            else SplitRecords_loop (snd (LStrip_range (StringRange_cstr '','') p_src))
                   parens p_records)
         else if fst (LStrip_range (StringRange_cstr ''('') p_src) then
           SplitRecords_loop (snd (LStrip_range (StringRange_cstr ''('') p_src))
             (parens + 1) p_records
         else if fst (LStrip_range (StringRange_cstr '')'') p_src) then
           SplitRecords_loop (snd (LStrip_range (StringRange_cstr '')'') p_src))
             (parens - 1) p_records
         else SplitRecords_loop (snd (LStrip_n 1 p_src)) parens p_records)
      else (p_src, p_records @ [GetCaptured p_src]))"
  by pat_completeness auto

definition SplitRecords ::
  "StringRange \<Rightarrow> StringRange list \<Rightarrow> StringRange \<times> StringRange list" where
  "SplitRecords p_src p_records = SplitRecords_loop (RestartCapture p_src) 0 p_records"

text \<open>The widest window of a list: the measure of the loop over the fields.\<close>

primrec max_size :: "StringRange list \<Rightarrow> nat" where
  "max_size [] = 0"
| "max_size (f # fs) = max (m_size f) (max_size fs)"

subsection \<open>The parser\<close>

text \<open>
  \<^verbatim>\<open>OpUtils::FromString(const std::string&, TypeProto&)\<close>. The keywords are tried in
  the order of the source; a failed \<^verbatim>\<open>LStrip\<close> leaves the window as it was. Where
  \<^verbatim>\<open>Find\<close> returns \<^verbatim>\<open>npos\<close> the source builds a window and a \<^verbatim>\<open>std::string\<close> of that
  length: the call ends in \<open>LengthError\<close>. \<open>FromString_fields\<close> is the loop over the
  records of a record or union, which adds one \<^verbatim>\<open>ValueInfoProto\<close> per record;
  \<^verbatim>\<open>SplitRecords\<close> pushes at least one record, so the record or union is always set.
  Every recursive call is on a shorter text; the proof follows the properties of the
  splitter.
\<close>

function FromString :: "string \<Rightarrow> error + TypeProto"
  and FromString_fields :: "StringRange list \<Rightarrow> error + (string \<times> TypeProto) list"
where
  "FromString p_src =
     (let s = StringRange_str p_src in
      if fst (LStrip_range (StringRange_cstr ''seq'') s) then
        (let s = snd (LStrip_range (StringRange_cstr ''seq'') s);
             s = ParensWhitespaceStrip s
         in case FromString (str s) of Inl e \<Rightarrow> Inl e
            | Inr elem_type \<Rightarrow> Inr (SeqType elem_type))
      else if fst (LStrip_range (StringRange_cstr ''map'') s) then
        (let s = snd (LStrip_range (StringRange_cstr ''map'') s);
             s = ParensWhitespaceStrip s
         in case Find s CHR '','' of
              None \<Rightarrow> Inl LengthError
            | Some key_size \<Rightarrow>
                (let k = StringRange_ptr (buf s) (m_data s) key_size;
                     key = str k;
                     s = snd (LStrip_n key_size s);
                     s = snd (LStrip_range (StringRange_cstr '','') s);
                     v = StringRange_ptr (buf s) (m_data s) (m_size s)
                 in case FromString_DataType key of Inl e \<Rightarrow> Inl e
                    | Inr key_type \<Rightarrow>
                        (case FromString (str v) of Inl e \<Rightarrow> Inl e
                         | Inr value_type \<Rightarrow> Inr (MapType key_type value_type))))
      else if fst (LStrip_range (StringRange_cstr ''record'') s) then
        (let s = snd (LStrip_range (StringRange_cstr ''record'') s);
             s = ParensWhitespaceStrip s;
             p_records = snd (SplitRecords s [])
         in case FromString_fields p_records of Inl e \<Rightarrow> Inl e
            | Inr field \<Rightarrow> Inr (RecordType field))
      else if fst (LStrip_range (StringRange_cstr ''union'') s) then
        (let s = snd (LStrip_range (StringRange_cstr ''union'') s);
             s = ParensWhitespaceStrip s;
             p_records = snd (SplitRecords s [])
         in case FromString_fields p_records of Inl e \<Rightarrow> Inl e
            | Inr choice \<Rightarrow> Inr (UnionType choice))
      else if fst (LStrip_range (StringRange_cstr ''sparse'') s) then
        (let s = snd (LStrip_range (StringRange_cstr ''sparse'') s);
             s = ParensWhitespaceStrip s
         in case FromString_DataType (str s) of Inl e \<Rightarrow> Inl e
            | Inr e \<Rightarrow> Inr (SparseTensorType e))
      else
        (case FromString_DataType (str s) of Inl e \<Rightarrow> Inl e
         | Inr e \<Rightarrow> Inr (TensorType e)))"
| "FromString_fields [] = Inr []"
| "FromString_fields (f # p_records) =
     (case Find f CHR '':'' of
        None \<Rightarrow> Inl LengthError
      | Some name_size \<Rightarrow>
          (let n = StringRange_ptr (buf f) (m_data f) name_size;
               name = str n;
               f = snd (LStrip_n name_size f);
               f = snd (LStrip_range (StringRange_cstr '':'') f)
           in case FromString (str f) of Inl e \<Rightarrow> Inl e
              | Inr type \<Rightarrow>
                  (case FromString_fields p_records of Inl e \<Rightarrow> Inl e
                   | Inr rest \<Rightarrow> Inr ((name, type) # rest))))"
  by pat_completeness auto

subsection \<open>The registry\<close>

text \<open>
  \<^verbatim>\<open>OpUtils::GetTypeStrToProtoMap\<close> returns one \<^verbatim>\<open>std::unordered_map<std::string, TypeProto>\<close>,
  empty at first; nothing erases from it. Its nodes are the list of the pairs in the order
  of their insertion, and the address of a node's key, which is what a \<^verbatim>\<open>PTYPE\<close> holds, is
  the node's position: a node never moves and never goes away.
\<close>

type_synonym TypeStrToProtoMap = "(string \<times> TypeProto) list"

type_synonym PTYPE = nat

text \<open>\<^verbatim>\<open>find\<close>: the node with the key, \<open>None\<close> for \<^verbatim>\<open>end()\<close>.\<close>

fun find_node :: "TypeStrToProtoMap \<Rightarrow> string \<Rightarrow> nat option" where
  "find_node [] typeStr = None"
| "find_node ((k, v) # m) typeStr =
     (if k = typeStr then Some 0 else map_option Suc (find_node m typeStr))"

text \<open>
  \<^verbatim>\<open>OpUtils::ToType(const TypeProto&)\<close>: serialize, insert when the string is no key yet,
  return the address of the key; the map after the call is returned with it.
\<close>

definition ToType :: "TypeProto \<Rightarrow> TypeStrToProtoMap \<Rightarrow> error + (PTYPE \<times> TypeStrToProtoMap)" where
  "ToType p_type m =
     (case ToString p_type of
        Inl e \<Rightarrow> Inl e
      | Inr typeStr \<Rightarrow>
          (let m = (if find_node m typeStr = None then m @ [(typeStr, p_type)] else m)
           in case find_node m typeStr of
                None \<Rightarrow> Inl OutOfRange
              | Some h \<Rightarrow> Inr (h, m)))"

text \<open>\<^verbatim>\<open>OpUtils::ToType(const std::string&)\<close>: parse, then intern the descriptor.\<close>

definition ToType_str :: "string \<Rightarrow> TypeStrToProtoMap \<Rightarrow> error + (PTYPE \<times> TypeStrToProtoMap)" where
  "ToType_str p_type m =
     (case FromString p_type of Inl e \<Rightarrow> Inl e | Inr type \<Rightarrow> ToType type m)"

text \<open>
  \<^verbatim>\<open>OpUtils::ToTypeProto\<close>: look the string behind the handle up; the assertion fails when it
  is no key.
\<close>

definition ToTypeProto :: "PTYPE \<Rightarrow> TypeStrToProtoMap \<Rightarrow> error + TypeProto" where
  "ToTypeProto p_type m =
     (if p_type < length m
      then (case find_node m (fst (m ! p_type)) of
              None \<Rightarrow> Inl OutOfRange
            | Some i \<Rightarrow> Inr (snd (m ! i)))
      else Inl OutOfRange)"

subsection \<open>The parser, branch by branch\<close>

text \<open>
  The text tried against a keyword, and the text between the parentheses after it: the
  window \<^verbatim>\<open>s\<close> of \<^verbatim>\<open>FromString\<close> after \<^verbatim>\<open>s.LStrip(kw)\<close> and
  \<^verbatim>\<open>s.ParensWhitespaceStrip()\<close>.
\<close>

definition has_tag :: "string \<Rightarrow> string \<Rightarrow> bool" where
  "has_tag kw src = fst (LStrip_range (StringRange_cstr kw) (StringRange_str src))"

definition payload_window :: "string \<Rightarrow> string \<Rightarrow> StringRange" where
  "payload_window kw src =
     ParensWhitespaceStrip (snd (LStrip_range (StringRange_cstr kw) (StringRange_str src)))"

definition payload :: "string \<Rightarrow> string \<Rightarrow> string" where
  "payload kw src = str (payload_window kw src)"

subsection \<open>The splitter against the depth-aware split of the spec\<close>

text \<open>
  The split as the spec words it: scan left to right, add one to a depth counter on an
  opening parenthesis, take one off on a closing one, and treat a comma as a separator only
  at depth zero. \<open>cur\<close> is the segment being read.
\<close>

fun depth_split :: "int \<Rightarrow> string \<Rightarrow> string \<Rightarrow> string list" where
  "depth_split d cur [] = [cur]"
| "depth_split d cur (c # cs) =
     (if c = CHR '','' then
        (if d = 0 then cur # depth_split d [] cs else depth_split d (cur @ [c]) cs)
      else if c = CHR ''('' then depth_split (d + 1) (cur @ [c]) cs
      else if c = CHR '')'' then depth_split (d - 1) (cur @ [c]) cs
      else depth_split d (cur @ [c]) cs)"

text \<open>
  A window that captures: it lies in its buffer, \<^verbatim>\<open>m_end\<close> stands at \<^verbatim>\<open>m_data\<close> and
  \<^verbatim>\<open>m_start\<close> not after it. \<open>cap\<close> is the text from \<^verbatim>\<open>m_start\<close> to \<^verbatim>\<open>m_end\<close>.
\<close>

definition capt :: "StringRange \<Rightarrow> bool" where
  "capt r = (inb r \<and> m_end r = m_data r \<and> m_start r \<le> m_data r)"

definition cap :: "StringRange \<Rightarrow> string" where
  "cap r = take (m_end r - m_start r) (drop (m_start r) (buf r))"

subsection \<open>Texts the parser reads back\<close>

text \<open>A text with a first and a last character, neither of them whitespace.\<close>

definition clean :: "string \<Rightarrow> bool" where
  "clean s = (s \<noteq> [] \<and> \<not> isspace (hd s) \<and> \<not> isspace (last s))"

text \<open>
  \<open>ns n s\<close>: read at a depth of at least \<open>n\<close>, the text \<open>s\<close> holds no separating comma and
  leaves the depth as it found it.
\<close>

definition ns :: "int \<Rightarrow> string \<Rightarrow> bool" where
  "ns n s = (\<forall>d acc rest. n \<le> d \<longrightarrow> depth_split d acc (s @ rest) = depth_split d (acc @ s) rest)"

definition plain :: "string \<Rightarrow> bool" where
  "plain s = (\<forall>c \<in> set s. c \<noteq> CHR '','' \<and> c \<noteq> CHR ''('' \<and> c \<noteq> CHR '')'')"

subsection \<open>The round trip\<close>

text \<open>
  A name the grammar can carry: none of the characters \<^verbatim>\<open>: , ( )\<close> in it, and no whitespace
  at either end. A descriptor is well formed when every element kind is a named one, no
  type is left unset, no record or union is empty, and every name is such a name.
\<close>

definition wf_name :: "string \<Rightarrow> bool" where
  "wf_name n =
     (list_all (\<lambda>c. c \<noteq> CHR '':'' \<and> c \<noteq> CHR '','' \<and> c \<noteq> CHR ''('' \<and> c \<noteq> CHR '')'') n
      \<and> (n = [] \<or> (\<not> isspace (hd n) \<and> \<not> isspace (last n))))"

fun wf_type :: "TypeProto \<Rightarrow> bool" where
  "wf_type VALUE_NOT_SET = False"
| "wf_type (TensorType e) = (e \<noteq> UNDEFINED)"
| "wf_type (SparseTensorType e) = (e \<noteq> UNDEFINED)"
| "wf_type (SeqType t) = wf_type t"
| "wf_type (MapType k v) = (k \<noteq> UNDEFINED \<and> wf_type v)"
| "wf_type (RecordType fs) = (fs \<noteq> [] \<and> (\<forall>x \<in> set fs. wf_name (fst x) \<and> wf_type (snd x)))"
| "wf_type (UnionType cs) = (cs \<noteq> [] \<and> (\<forall>x \<in> set cs. wf_name (fst x) \<and> wf_type (snd x)))"

text \<open>The serialization as a text, and the interior of a record or union.\<close>

definition the_str :: "TypeProto \<Rightarrow> string" where
  "the_str t = (case ToString t of Inl e \<Rightarrow> [] | Inr s \<Rightarrow> s)"

definition seg :: "string \<times> TypeProto \<Rightarrow> string" where
  "seg x = fst x @ '':'' @ the_str (snd x)"

fun join :: "(string \<times> TypeProto) list \<Rightarrow> string" where
  "join [] = []"
| "join [x] = seg x"
| "join (x # y # r) = seg x @ '','' @ join (y # r)"

text \<open>What the induction carries for a descriptor.\<close>

definition good :: "TypeProto \<Rightarrow> bool" where
  "good t = (ToString t = Inr (the_str t) \<and> FromString (the_str t) = Inr t
             \<and> clean (the_str t) \<and> ns 0 (the_str t))"

subsection \<open>What a successful parse holds\<close>



subsection \<open>Texts with a name that is not allowed\<close>



section \<open>Properties of the model\<close>

subsection \<open>The primitive names\<close>

lemmas c_defs =
  c_bool_def c_string_def c_float16_def c_float_def c_double_def c_int8_def c_int16_def
  c_int32_def c_int64_def c_uint8_def c_uint16_def c_uint32_def c_uint64_def
  c_complex64_def c_complex128_def

subsection \<open>The window as text\<close>

lemma length_str: "inb r \<Longrightarrow> length (str r) = m_size r"
  by (simp add: inb_def str_def)

lemma str_nth: "inb r \<Longrightarrow> i < m_size r \<Longrightarrow> buf r ! (m_data r + i) = str r ! i"
  by (simp add: inb_def str_def)

lemma LStrip_n_size: "m_size (snd (LStrip_n k r)) \<le> m_size r"
  by (simp add: LStrip_n_def)

lemma RStrip_n_size: "m_size (snd (RStrip_n k r)) \<le> m_size r"
  by (simp add: RStrip_n_def)

lemma str_LStrip_n: "k \<le> m_size r \<Longrightarrow> str (snd (LStrip_n k r)) = drop k (str r)"
  by (simp add: LStrip_n_def str_def drop_take add.commute)

lemma inb_LStrip_n: "inb r \<Longrightarrow> inb (snd (LStrip_n k r))"
  by (simp add: LStrip_n_def inb_def)

lemma str_RStrip_n: "k \<le> m_size r \<Longrightarrow> str (snd (RStrip_n k r)) = take (m_size r - k) (str r)"
  by (simp add: RStrip_n_def str_def min_def)

lemma inb_RStrip_n: "inb r \<Longrightarrow> inb (snd (RStrip_n k r))"
  by (auto simp add: RStrip_n_def inb_def)

lemma LStrip_loop_eq:
  "inb r \<Longrightarrow> count \<le> m_size r \<Longrightarrow>
   LStrip_loop r count = count + length (takeWhile isspace (drop count (str r)))"
proof (induction r count rule: LStrip_loop.induct)
  case (1 r count)
  show ?case
  proof (cases "count < m_size r")
    case False
    with 1 show ?thesis by (subst LStrip_loop.simps) (simp add: length_str)
  next
    case True
    then have d: "drop count (str r) = str r ! count # drop (Suc count) (str r)"
      using 1(2) by (simp add: Cons_nth_drop_Suc length_str)
    show ?thesis
    proof (cases "isspace (str r ! count)")
      case True
      with \<open>count < m_size r\<close> 1 d show ?thesis
        by (subst LStrip_loop.simps) (simp add: str_nth)
    next
      case False
      with \<open>count < m_size r\<close> 1 d show ?thesis
        by (subst LStrip_loop.simps) (simp add: str_nth)
    qed
  qed
qed

lemma rev_str_nth:
  "inb r \<Longrightarrow> i < m_size r \<Longrightarrow> buf r ! (m_data r + m_size r - 1 - i) = rev (str r) ! i"
proof -
  assume a: "inb r" "i < m_size r"
  then have "rev (str r) ! i = str r ! (m_size r - Suc i)"
    by (simp add: rev_nth length_str)
  also have "\<dots> = buf r ! (m_data r + (m_size r - Suc i))"
    using a str_nth [of r "m_size r - Suc i"] by simp
  also have "m_data r + (m_size r - Suc i) = m_data r + m_size r - 1 - i"
    using a by simp
  finally show ?thesis by simp
qed

lemma rev_str_nth':
  "inb r \<Longrightarrow> i < m_size r \<Longrightarrow> buf r ! (m_data r + m_size r - Suc i) = rev (str r) ! i"
  using rev_str_nth [of r i] by simp

lemma RStrip_loop_eq:
  "inb r \<Longrightarrow> count \<le> m_size r \<Longrightarrow>
   RStrip_loop r count = count + length (takeWhile isspace (drop count (rev (str r))))"
proof (induction r count rule: RStrip_loop.induct)
  case (1 r count)
  show ?case
  proof (cases "count < m_size r")
    case False
    with 1 show ?thesis by (subst RStrip_loop.simps) (simp add: length_str)
  next
    case True
    then have d: "drop count (rev (str r)) = rev (str r) ! count # drop (Suc count) (rev (str r))"
      using 1(2) by (simp add: Cons_nth_drop_Suc length_str)
    show ?thesis
    proof (cases "isspace (rev (str r) ! count)")
      case True
      with \<open>count < m_size r\<close> 1 d show ?thesis
        by (subst RStrip_loop.simps) (simp add: rev_str_nth')
    next
      case False
      with \<open>count < m_size r\<close> 1 d show ?thesis
        by (subst RStrip_loop.simps) (simp add: rev_str_nth')
    qed
  qed
qed

lemma Find_loop_eq:
  "inb r \<Longrightarrow> idx \<le> m_size r \<Longrightarrow>
   Find_loop r c idx =
     (if c \<in> set (drop idx (str r))
      then Some (idx + length (takeWhile (\<lambda>x. x \<noteq> c) (drop idx (str r)))) else None)"
proof (induction r c idx rule: Find_loop.induct)
  case (1 r c idx)
  show ?case
  proof (cases "idx < m_size r")
    case False
    with 1 show ?thesis by (subst Find_loop.simps) (simp add: length_str)
  next
    case True
    then have d: "drop idx (str r) = str r ! idx # drop (Suc idx) (str r)"
      using 1(2) by (simp add: Cons_nth_drop_Suc length_str)
    show ?thesis
    proof (cases "str r ! idx = c")
      case True
      with \<open>idx < m_size r\<close> 1 d show ?thesis
        by (subst Find_loop.simps) (simp add: str_nth)
    next
      case False
      with \<open>idx < m_size r\<close> 1 d show ?thesis
        by (subst Find_loop.simps) (auto simp add: str_nth)
    qed
  qed
qed

lemma Find_eq:
  "inb r \<Longrightarrow> Find r c =
     (if c \<in> set (str r) then Some (length (takeWhile (\<lambda>x. x \<noteq> c) (str r))) else None)"
  using Find_loop_eq [of r 0 c] by (simp add: Find_def)

lemma LStrip_ws_size: "m_size (snd (LStrip_ws r)) \<le> m_size r"
  by (simp add: LStrip_ws_def Let_def LStrip_n_size)

lemma RStrip_ws_size: "m_size (snd (RStrip_ws r)) \<le> m_size r"
  by (simp add: RStrip_ws_def Let_def RStrip_n_size)

lemma inb_LStrip_ws: "inb r \<Longrightarrow> inb (snd (LStrip_ws r))"
  by (simp add: LStrip_ws_def Let_def inb_LStrip_n)

lemma inb_RStrip_ws: "inb r \<Longrightarrow> inb (snd (RStrip_ws r))"
  by (simp add: RStrip_ws_def Let_def inb_RStrip_n)

lemma length_takeWhile_le_m: "inb r \<Longrightarrow> length (takeWhile P (str r)) \<le> m_size r"
  using length_takeWhile_le [of P "str r"] by (simp add: length_str)

lemma str_LStrip_ws: "inb r \<Longrightarrow> str (snd (LStrip_ws r)) = dropWhile isspace (str r)"
proof -
  assume a: "inb r"
  let ?n = "length (takeWhile isspace (str r))"
  have n: "LStrip_loop r 0 = ?n" using LStrip_loop_eq [OF a, of 0] by simp
  have le: "?n \<le> m_size r" using a by (rule length_takeWhile_le_m)
  show ?thesis
  proof (cases "?n = 0")
    case True
    then have "dropWhile isspace (str r) = str r"
      by (metis append_Nil length_0_conv takeWhile_dropWhile_id)
    with True n show ?thesis by (simp add: LStrip_ws_def)
  next
    case False
    with n le show ?thesis
      by (simp add: LStrip_ws_def str_LStrip_n dropWhile_eq_drop)
  qed
qed

lemma str_RStrip_ws: "inb r \<Longrightarrow> str (snd (RStrip_ws r)) = rev (dropWhile isspace (rev (str r)))"
proof -
  assume a: "inb r"
  let ?n = "length (takeWhile isspace (rev (str r)))"
  have n: "RStrip_loop r 0 = ?n" using RStrip_loop_eq [OF a, of 0] by simp
  have le: "?n \<le> m_size r"
    using length_takeWhile_le [of isspace "rev (str r)"] a by (simp add: length_str)
  show ?thesis
  proof (cases "?n = 0")
    case True
    then have "dropWhile isspace (rev (str r)) = rev (str r)"
      by (metis append_Nil length_0_conv takeWhile_dropWhile_id)
    with True n show ?thesis by (simp add: RStrip_ws_def)
  next
    case False
    have "rev (dropWhile isspace (rev (str r))) = rev (drop ?n (rev (str r)))"
      by (simp add: dropWhile_eq_drop)
    also have "\<dots> = take (m_size r - ?n) (str r)"
      using a by (simp add: rev_drop length_str)
    finally show ?thesis using False n le
      by (simp add: RStrip_ws_def str_RStrip_n)
  qed
qed

lemma LAndRStrip_snd: "snd (LAndRStrip r) = snd (RStrip_ws (snd (LStrip_ws r)))"
  by (simp add: LAndRStrip_def split: prod.splits)

lemma LAndRStrip_size: "m_size (snd (LAndRStrip r)) \<le> m_size r"
  unfolding LAndRStrip_snd using RStrip_ws_size LStrip_ws_size le_trans by blast

lemma inb_LAndRStrip: "inb r \<Longrightarrow> inb (snd (LAndRStrip r))"
  by (simp add: LAndRStrip_snd inb_LStrip_ws inb_RStrip_ws)

lemma str_LAndRStrip: "inb r \<Longrightarrow> str (snd (LAndRStrip r)) = trim (str r)"
  by (simp add: LAndRStrip_snd inb_LStrip_ws str_RStrip_ws str_LStrip_ws trim_def)

lemma StartsWith_str:
  "StartsWith r p \<longleftrightarrow> m_size p \<le> m_size r \<and> take (m_size p) (str r) = str p"
  by (auto simp add: StartsWith_def str_def min_def)

lemma EndsWith_le: "EndsWith r p \<Longrightarrow> m_size p \<le> m_size r"
  by (simp add: EndsWith_def)

lemma EndsWith_str:
  "EndsWith r p \<longleftrightarrow> m_size p \<le> m_size r \<and> drop (m_size r - m_size p) (str r) = str p"
proof (cases "m_size p \<le> m_size r")
  case True
  then have "m_size r - (m_size r - m_size p) = m_size p" by simp
  then show ?thesis
    using True unfolding EndsWith_def str_def drop_take drop_drop
    by (simp only: add.commute)
next
  case False
  then show ?thesis by (simp add: EndsWith_def)
qed

lemma fst_LStrip_range: "fst (LStrip_range p r) = StartsWith r p"
  by (simp add: LStrip_range_def LStrip_n_def StartsWith_def)

lemma fst_RStrip_range: "fst (RStrip_range p r) = EndsWith r p"
  by (cases "EndsWith r p") (simp_all add: RStrip_range_def RStrip_n_def EndsWith_le)

lemma m_size_LStrip_range:
  "m_size (snd (LStrip_range p r)) = (if StartsWith r p then m_size r - m_size p else m_size r)"
  by (simp add: LStrip_range_def LStrip_n_def StartsWith_def)

lemma m_size_RStrip_range:
  "m_size (snd (RStrip_range p r)) = (if EndsWith r p then m_size r - m_size p else m_size r)"
  by (cases "EndsWith r p") (simp_all add: RStrip_range_def RStrip_n_def EndsWith_le)

lemma str_LStrip_range:
  "str (snd (LStrip_range p r)) = (if StartsWith r p then drop (m_size p) (str r) else str r)"
  by (simp add: LStrip_range_def str_LStrip_n StartsWith_def)

lemma str_RStrip_range:
  "str (snd (RStrip_range p r)) =
     (if EndsWith r p then take (m_size r - m_size p) (str r) else str r)"
  by (cases "EndsWith r p") (simp_all add: RStrip_range_def str_RStrip_n EndsWith_le)

lemma inb_LStrip_range: "inb r \<Longrightarrow> inb (snd (LStrip_range p r))"
  by (simp add: LStrip_range_def inb_LStrip_n)

lemma inb_RStrip_range: "inb r \<Longrightarrow> inb (snd (RStrip_range p r))"
  by (simp add: RStrip_range_def inb_RStrip_n)

lemma LStrip_range_False: "\<not> StartsWith r p \<Longrightarrow> LStrip_range p r = (False, r)"
  by (simp add: LStrip_range_def)

lemma RStrip_range_False: "\<not> EndsWith r p \<Longrightarrow> RStrip_range p r = (False, r)"
  by (simp add: RStrip_range_def)

text \<open>The literals the parser strips, as windows.\<close>

lemma cstr_seq:
  "StringRange_cstr ''seq'' = \<lparr>buf = ''seq'', m_data = 0, m_size = 3, m_start = 0, m_end = 0\<rparr>"
  by code_simp

lemma cstr_map:
  "StringRange_cstr ''map'' = \<lparr>buf = ''map'', m_data = 0, m_size = 3, m_start = 0, m_end = 0\<rparr>"
  by code_simp

lemma cstr_record:
  "StringRange_cstr ''record'' =
     \<lparr>buf = ''record'', m_data = 0, m_size = 6, m_start = 0, m_end = 0\<rparr>"
  by code_simp

lemma cstr_union:
  "StringRange_cstr ''union'' =
     \<lparr>buf = ''union'', m_data = 0, m_size = 5, m_start = 0, m_end = 0\<rparr>"
  by code_simp

lemma cstr_sparse:
  "StringRange_cstr ''sparse'' =
     \<lparr>buf = ''sparse'', m_data = 0, m_size = 6, m_start = 0, m_end = 0\<rparr>"
  by code_simp

lemma cstr_comma:
  "StringRange_cstr '','' = \<lparr>buf = '','', m_data = 0, m_size = 1, m_start = 0, m_end = 0\<rparr>"
  by code_simp

lemma cstr_colon:
  "StringRange_cstr '':'' = \<lparr>buf = '':'', m_data = 0, m_size = 1, m_start = 0, m_end = 0\<rparr>"
  by code_simp

lemma cstr_open:
  "StringRange_cstr ''('' = \<lparr>buf = ''('', m_data = 0, m_size = 1, m_start = 0, m_end = 0\<rparr>"
  by code_simp

lemma cstr_close:
  "StringRange_cstr '')'' = \<lparr>buf = '')'', m_data = 0, m_size = 1, m_start = 0, m_end = 0\<rparr>"
  by code_simp

lemmas cstr_lits =
  cstr_seq cstr_map cstr_record cstr_union cstr_sparse cstr_comma cstr_colon cstr_open
  cstr_close

lemma m_size_RestartCapture: "m_size (RestartCapture r) = m_size r"
  by (simp add: RestartCapture_def)

lemma str_RestartCapture: "str (RestartCapture r) = str r"
  by (simp add: RestartCapture_def str_def)

lemma inb_RestartCapture: "inb (RestartCapture r) = inb r"
  by (simp add: RestartCapture_def inb_def)

subsection \<open>The splitter\<close>

lemma SplitRecords_step1:
  "0 < m_size r \<Longrightarrow> StartsWith r (StringRange_cstr '','') \<Longrightarrow>
   m_size (snd (LStrip_range (StringRange_cstr '','') r)) < m_size r"
  by (simp add: m_size_LStrip_range cstr_comma)

lemma SplitRecords_step2:
  "0 < m_size r \<Longrightarrow> fst (LStrip_range (StringRange_cstr ''('') r) \<Longrightarrow>
   m_size (snd (LStrip_range (StringRange_cstr ''('') r)) < m_size r"
  by (simp add: m_size_LStrip_range fst_LStrip_range cstr_open)

lemma SplitRecords_step3:
  "0 < m_size r \<Longrightarrow> fst (LStrip_range (StringRange_cstr '')'') r) \<Longrightarrow>
   m_size (snd (LStrip_range (StringRange_cstr '')'') r)) < m_size r"
  by (simp add: m_size_LStrip_range fst_LStrip_range cstr_close)

lemma SplitRecords_step4: "0 < m_size r \<Longrightarrow> m_size (snd (LStrip_n (Suc 0) r)) < m_size r"
  by (simp add: LStrip_n_def)

termination SplitRecords_loop
  by (relation "measure (\<lambda>(p_src, parens, p_records). m_size p_src)")
     (simp_all add: m_size_RestartCapture SplitRecords_step1 SplitRecords_step2
        SplitRecords_step3 SplitRecords_step4)

declare SplitRecords_loop.simps [simp del]

lemma length_str_le: "length (str r) \<le> m_size r"
  by (simp add: str_def)

lemma m_size_StringRange_str: "m_size (StringRange_str p) \<le> length p"
  using LAndRStrip_size [of "\<lparr>buf = p, m_data = 0, m_size = length p, m_start = 0, m_end = 0\<rparr>"]
  by (simp add: StringRange_str_def)

lemma m_size_StringRange_ptr: "m_size (StringRange_ptr b d n) \<le> n"
  using LAndRStrip_size [of "\<lparr>buf = b, m_data = d, m_size = n, m_start = d, m_end = d\<rparr>"]
  by (simp add: StringRange_ptr_def)

lemma m_size_ParensWhitespaceStrip: "m_size (ParensWhitespaceStrip r) \<le> m_size r"
proof -
  let ?r1 = "snd (LStrip_ws r)"
  let ?r2 = "snd (LStrip_range (StringRange_cstr ''('') ?r1)"
  let ?r3 = "snd (LAndRStrip ?r2)"
  let ?r4 = "snd (RStrip_range (StringRange_cstr '')'') ?r3)"
  have "m_size (snd (RStrip_ws ?r4)) \<le> m_size ?r4" by (rule RStrip_ws_size)
  also have "\<dots> \<le> m_size ?r3" by (simp add: m_size_RStrip_range)
  also have "\<dots> \<le> m_size ?r2" by (rule LAndRStrip_size)
  also have "\<dots> \<le> m_size ?r1" by (simp add: m_size_LStrip_range)
  also have "\<dots> \<le> m_size r" by (rule LStrip_ws_size)
  finally show ?thesis by (simp add: ParensWhitespaceStrip_def)
qed

lemma m_size_GetCaptured: "m_size (GetCaptured r) \<le> m_end r - m_start r"
  by (simp add: GetCaptured_def m_size_StringRange_ptr)

text \<open>No record pushed by the splitter is wider than what the window held.\<close>

lemma SplitRecords_loop_size:
  "f \<in> set (snd (SplitRecords_loop r d recs)) \<Longrightarrow>
   f \<in> set recs \<or> m_size f \<le> (m_end r - m_start r) + m_size r"
proof (induction r d recs rule: SplitRecords_loop.induct)
  case (1 p_src parens p_records)
  let ?c = "snd (LStrip_range (StringRange_cstr '','') p_src)"
  let ?o = "snd (LStrip_range (StringRange_cstr ''('') p_src)"
  let ?e = "snd (LStrip_range (StringRange_cstr '')'') p_src)"
  let ?B = "(m_end p_src - m_start p_src) + m_size p_src"
  have cap: "m_size (GetCaptured p_src) \<le> ?B"
    using m_size_GetCaptured [of p_src] by simp
  have lit: "\<And>p. (m_end (snd (LStrip_range p p_src)) - m_start (snd (LStrip_range p p_src)))
                + m_size (snd (LStrip_range p p_src)) \<le> ?B"
    by (auto simp add: LStrip_range_def LStrip_n_def)
  have one: "(m_end (snd (LStrip_n 1 p_src)) - m_start (snd (LStrip_n 1 p_src)))
                + m_size (snd (LStrip_n 1 p_src)) \<le> ?B"
    by (auto simp add: LStrip_n_def)
  show ?case
  proof (cases "m_size p_src > 0")
    case False
    with 1(6) cap show ?thesis
      by (subst (asm) SplitRecords_loop.simps) auto
  next
    case pos: True
    show ?thesis
    proof (cases "StartsWith p_src (StringRange_cstr '','')")
      case True
      show ?thesis
      proof (cases "parens = 0")
        case z: True
        from 1(6) pos True z
        have "f \<in> set (snd (SplitRecords_loop (RestartCapture ?c) parens
                 (p_records @ [GetCaptured p_src])))"
          by (subst (asm) SplitRecords_loop.simps) simp
        from 1(1) [OF pos True z this]
        have "f \<in> set p_records \<or> f = GetCaptured p_src \<or> m_size f \<le> m_size ?c"
          by (auto simp add: RestartCapture_def)
        moreover have "m_size ?c \<le> ?B" by (auto simp add: m_size_LStrip_range)
        ultimately show ?thesis using cap by auto
      next
        case nz: False
        from 1(6) pos True nz
        have "f \<in> set (snd (SplitRecords_loop ?c parens p_records))"
          by (subst (asm) SplitRecords_loop.simps) simp
        from 1(2) [OF pos True nz this] lit [of "StringRange_cstr '',''"]
        show ?thesis by auto
      qed
    next
      case nc: False
      show ?thesis
      proof (cases "fst (LStrip_range (StringRange_cstr ''('') p_src)")
        case True
        from 1(6) pos nc True
        have "f \<in> set (snd (SplitRecords_loop ?o (parens + 1) p_records))"
          by (subst (asm) SplitRecords_loop.simps) simp
        from 1(3) [OF pos nc True this] lit [of "StringRange_cstr ''(''"]
        show ?thesis by auto
      next
        case no: False
        show ?thesis
        proof (cases "fst (LStrip_range (StringRange_cstr '')'') p_src)")
          case True
          from 1(6) pos nc no True
          have "f \<in> set (snd (SplitRecords_loop ?e (parens - 1) p_records))"
            by (subst (asm) SplitRecords_loop.simps) simp
          from 1(4) [OF pos nc no True this] lit [of "StringRange_cstr '')''"]
          show ?thesis by auto
        next
          case False
          from 1(6) pos nc no False
          have "f \<in> set (snd (SplitRecords_loop (snd (LStrip_n 1 p_src)) parens p_records))"
            by (subst (asm) SplitRecords_loop.simps) simp
          from 1(5) [OF pos nc no False this] one
          show ?thesis by auto
        qed
      qed
    qed
  qed
qed

lemma SplitRecords_size:
  "f \<in> set (snd (SplitRecords r [])) \<Longrightarrow> m_size f \<le> m_size r"
  using SplitRecords_loop_size [of f "RestartCapture r" 0 "[]"]
  by (simp add: SplitRecords_def RestartCapture_def)

lemma max_size_le: "(\<And>f. f \<in> set fs \<Longrightarrow> m_size f \<le> n) \<Longrightarrow> max_size fs \<le> n"
  by (induction fs) auto

lemma keyword_payload_lt:
  assumes "fst (LStrip_range p (StringRange_str src))" and "0 < m_size p"
  shows "m_size (ParensWhitespaceStrip (snd (LStrip_range p (StringRange_str src)))) < length src"
proof -
  let ?s = "StringRange_str src"
  from assms(1) have sw: "StartsWith ?s p" by (simp add: fst_LStrip_range)
  then have le: "m_size p \<le> m_size ?s" by (simp add: StartsWith_def)
  have "m_size (ParensWhitespaceStrip (snd (LStrip_range p ?s))) \<le> m_size (snd (LStrip_range p ?s))"
    by (rule m_size_ParensWhitespaceStrip)
  also have "\<dots> = m_size ?s - m_size p" using sw by (simp add: m_size_LStrip_range)
  also have "\<dots> < m_size ?s" using le assms(2) by simp
  also have "\<dots> \<le> length src" by (rule m_size_StringRange_str)
  finally show ?thesis .
qed

subsection \<open>The parser\<close>

lemma keyword_payload_str_lt:
  "fst (LStrip_range p (StringRange_str src)) \<Longrightarrow> 0 < m_size p \<Longrightarrow>
   length (str (ParensWhitespaceStrip (snd (LStrip_range p (StringRange_str src))))) < length src"
  using keyword_payload_lt [of p src]
    length_str_le [of "ParensWhitespaceStrip (snd (LStrip_range p (StringRange_str src)))"]
  by simp

lemma map_value_lt:
  assumes "fst (LStrip_range p (StringRange_str src))" and "0 < m_size p"
  shows "length (str (StringRange_ptr
           (buf (snd (LStrip_range c (snd (LStrip_n k
              (ParensWhitespaceStrip (snd (LStrip_range p (StringRange_str src)))))))))
           (m_data (snd (LStrip_range c (snd (LStrip_n k
              (ParensWhitespaceStrip (snd (LStrip_range p (StringRange_str src)))))))))
           (m_size (snd (LStrip_range c (snd (LStrip_n k
              (ParensWhitespaceStrip (snd (LStrip_range p (StringRange_str src)))))))))))
         < length src"
proof -
  let ?P = "ParensWhitespaceStrip (snd (LStrip_range p (StringRange_str src)))"
  let ?X = "snd (LStrip_range c (snd (LStrip_n k ?P)))"
  have "length (str (StringRange_ptr (buf ?X) (m_data ?X) (m_size ?X))) \<le> m_size ?X"
    using length_str_le m_size_StringRange_ptr le_trans by blast
  also have "\<dots> \<le> m_size (snd (LStrip_n k ?P))" by (simp add: m_size_LStrip_range)
  also have "\<dots> \<le> m_size ?P" by (rule LStrip_n_size)
  also have "\<dots> < length src" using assms by (rule keyword_payload_lt)
  finally show ?thesis .
qed

lemma records_lt:
  assumes "fst (LStrip_range p (StringRange_str src))" and "0 < m_size p"
  shows "max_size (snd (SplitRecords
           (ParensWhitespaceStrip (snd (LStrip_range p (StringRange_str src)))) []))
         < length src"
proof -
  let ?P = "ParensWhitespaceStrip (snd (LStrip_range p (StringRange_str src)))"
  have "max_size (snd (SplitRecords ?P [])) \<le> m_size ?P"
    by (rule max_size_le) (rule SplitRecords_size)
  also have "\<dots> < length src" using assms by (rule keyword_payload_lt)
  finally show ?thesis .
qed

lemma field_type_le:
  "length (str (snd (LStrip_range c (snd (LStrip_n k f))))) \<le> m_size f"
proof -
  have "length (str (snd (LStrip_range c (snd (LStrip_n k f)))))
          \<le> m_size (snd (LStrip_range c (snd (LStrip_n k f))))"
    by (rule length_str_le)
  also have "\<dots> \<le> m_size (snd (LStrip_n k f))" by (simp add: m_size_LStrip_range)
  also have "\<dots> \<le> m_size f" by (rule LStrip_n_size)
  finally show ?thesis .
qed

termination FromString
  apply (relation "inv_image (less_than <*lex*> less_than)
            (\<lambda>x. case x of Inl p \<Rightarrow> (length p, 0)
                   | Inr fs \<Rightarrow> (max_size fs, Suc (length fs)))")
  subgoal by (intro wf_inv_image wf_lex_prod wf_less_than)
  subgoal by (simp add: keyword_payload_str_lt cstr_lits)
  subgoal by (simp add: map_value_lt cstr_lits)
  subgoal by (simp add: records_lt cstr_lits)
  subgoal by (simp add: records_lt cstr_lits)
  subgoal for f p_records x2 x xa xb xc
    using field_type_le [of "StringRange_cstr '':''" x2 f] by auto
  subgoal by auto
  done

declare FromString.simps [simp del] FromString_fields.simps [simp del]

subsection \<open>The primitive table\<close>

lemma IsValid_names:
  "IsValidDataTypeString p \<longleftrightarrow>
     p = c_float16 \<or> p = c_float \<or> p = c_double \<or> p = c_int8 \<or> p = c_int16 \<or> p = c_int32
     \<or> p = c_int64 \<or> p = c_uint8 \<or> p = c_uint16 \<or> p = c_uint32 \<or> p = c_uint64
     \<or> p = c_complex64 \<or> p = c_complex128 \<or> p = c_string \<or> p = c_bool"
  by (simp add: IsValidDataTypeString_def GetAllowedDataTypes_def)

lemma FromString_DataType_names:
  "FromString_DataType c_bool = Inr BOOL"
  "FromString_DataType c_float = Inr FLOAT"
  "FromString_DataType c_float16 = Inr FLOAT16"
  "FromString_DataType c_double = Inr DOUBLE"
  "FromString_DataType c_int8 = Inr INT8"
  "FromString_DataType c_int16 = Inr INT16"
  "FromString_DataType c_int32 = Inr INT32"
  "FromString_DataType c_int64 = Inr INT64"
  "FromString_DataType c_string = Inr STRING"
  "FromString_DataType c_uint8 = Inr UINT8"
  "FromString_DataType c_uint16 = Inr UINT16"
  "FromString_DataType c_uint32 = Inr UINT32"
  "FromString_DataType c_uint64 = Inr UINT64"
  "FromString_DataType c_complex64 = Inr COMPLEX64"
  "FromString_DataType c_complex128 = Inr COMPLEX128"
  by (simp_all add: FromString_DataType_def IsValid_names c_defs)

lemma FromString_ToString_DataType:
  "ToString_DataType k = Inr p \<Longrightarrow> FromString_DataType p = Inr k"
  by (cases k) (auto simp add: FromString_DataType_names)

lemma FromString_DataType_Inr:
  assumes "FromString_DataType p = Inr k"
  shows "k \<noteq> UNDEFINED \<and> ToString_DataType k = Inr p"
proof -
  have v: "IsValidDataTypeString p"
    using assms by (rule_tac ccontr) (simp add: FromString_DataType_def)
  then obtain k' where k': "ToString_DataType k' = Inr p"
    unfolding IsValid_names by (elim disjE) (auto intro: ToString_DataType.simps)
  from FromString_ToString_DataType [OF k'] assms have "k' = k" by simp
  with k' show ?thesis by auto
qed

lemma ToString_DataType_inj: "inj ToString_DataType"
proof (rule injI)
  fix x y assume h: "ToString_DataType x = ToString_DataType y"
  show "x = y"
  proof (cases "x = UNDEFINED")
    case True
    with h show ?thesis by (cases y) simp_all
  next
    case False
    then obtain p where p: "ToString_DataType x = Inr p" by (cases x) simp_all
    from FromString_ToString_DataType [OF p] FromString_ToString_DataType [of y p] h p
    show ?thesis by simp
  qed
qed

subsection \<open>The registry\<close>

lemma find_node_Some: "find_node m k = Some h \<Longrightarrow> h < length m \<and> fst (m ! h) = k"
  by (induction m k arbitrary: h rule: find_node.induct) (auto split: if_splits)

lemma find_node_None: "find_node m k = None \<longleftrightarrow> k \<notin> fst ` set m"
  by (induction m k rule: find_node.induct) auto

lemma find_node_append:
  "find_node m k = Some h \<Longrightarrow> find_node (m @ x) k = Some h"
  by (induction m k arbitrary: h rule: find_node.induct) (auto split: if_splits)

lemma find_node_new: "find_node m k = None \<Longrightarrow> find_node (m @ [(k, v)]) k = Some (length m)"
  by (induction m k rule: find_node.induct) (auto split: if_splits)

lemma find_node_distinct:
  "distinct (map fst m) \<Longrightarrow> h < length m \<Longrightarrow> find_node m (fst (m ! h)) = Some h"
proof (induction m arbitrary: h)
  case Nil
  then show ?case by simp
next
  case (Cons a m)
  obtain k v where a: "a = (k, v)" by (cases a)
  show ?case
  proof (cases h)
    case 0
    with a show ?thesis by simp
  next
    case (Suc h')
    with Cons.prems a have "fst (m ! h') \<in> fst ` set m" "k \<notin> fst ` set m" by auto
    then have "k \<noteq> fst (m ! h')" by auto
    with Cons a Suc show ?thesis by simp
  qed
qed

lemma ToType_cases:
  assumes "ToType t m = Inr (h, m')"
  obtains s where "ToString t = Inr s" "find_node m s = Some h" "m' = m"
  | s where "ToString t = Inr s" "find_node m s = None" "m' = m @ [(s, t)]" "h = length m"
proof (cases "ToString t")
  case (Inl e)
  with assms show ?thesis by (simp add: ToType_def)
next
  case (Inr s)
  show ?thesis
  proof (cases "find_node m s")
    case None
    have "ToType t m = Inr (length m, m @ [(s, t)])"
      using Inr None find_node_new [OF None, of t] by (simp add: ToType_def)
    with assms have "h = length m" "m' = m @ [(s, t)]" by simp_all
    with Inr None show ?thesis by (rule_tac that(2))
  next
    case (Some i)
    have "ToType t m = Inr (i, m)" using Inr Some by (simp add: ToType_def)
    with assms have "h = i" "m' = m" by simp_all
    with Inr Some show ?thesis by (rule_tac that(1)) simp_all
  qed
qed

lemma ToType_handle:
  "ToType t m = Inr (h, m') \<Longrightarrow>
   h < length m' \<and> ToString t = Inr (fst (m' ! h)) \<and> find_node m' (fst (m' ! h)) = Some h
   \<and> take (length m) m' = m"
proof (erule ToType_cases)
  fix s assume "ToString t = Inr s" "find_node m s = Some h" "m' = m"
  then show ?thesis using find_node_Some [of m s h] by simp
next
  fix s assume a: "ToString t = Inr s" "find_node m s = None" "m' = m @ [(s, t)]" "h = length m"
  then show ?thesis using find_node_new [of m s t] by simp
qed

lemma ToType_again: "ToType t m = Inr (h, m') \<Longrightarrow> ToType t m' = Inr (h, m')"
  using ToType_handle [of t m h m'] by (auto simp add: ToType_def)

lemma ToType_distinct:
  "distinct (map fst m) \<Longrightarrow> ToType t m = Inr (h, m') \<Longrightarrow> distinct (map fst m')"
  by (erule ToType_cases) (auto simp add: find_node_None)

subsection \<open>The parser, branch by branch\<close>

lemma inb_StringRange_str: "inb (StringRange_str src)"
  unfolding StringRange_str_def by (rule inb_LAndRStrip) (simp add: inb_def)

lemma str_StringRange_str: "str (StringRange_str src) = trim src"
  unfolding StringRange_str_def by (subst str_LAndRStrip) (simp_all add: inb_def str_def)

lemma inb_StringRange_ptr: "d + n \<le> length b \<Longrightarrow> inb (StringRange_ptr b d n)"
  unfolding StringRange_ptr_def by (rule inb_LAndRStrip) (simp add: inb_def)

lemma str_StringRange_ptr:
  "d + n \<le> length b \<Longrightarrow> str (StringRange_ptr b d n) = trim (take n (drop d b))"
  unfolding StringRange_ptr_def by (subst str_LAndRStrip) (simp_all add: inb_def str_def)

lemma str_sub_window:
  "inb r \<Longrightarrow> n \<le> m_size r \<Longrightarrow>
   str (StringRange_ptr (buf r) (m_data r) n) = trim (take n (str r))"
  by (subst str_StringRange_ptr) (simp_all add: inb_def str_def min_def)

lemma inb_ParensWhitespaceStrip: "inb r \<Longrightarrow> inb (ParensWhitespaceStrip r)"
  by (simp add: ParensWhitespaceStrip_def inb_LStrip_ws inb_LStrip_range inb_LAndRStrip
      inb_RStrip_range inb_RStrip_ws)

lemma inb_payload_window: "inb (payload_window kw src)"
  by (simp add: payload_window_def inb_ParensWhitespaceStrip inb_LStrip_range
      inb_StringRange_str)

lemma FromString_unfold:
  "FromString src =
     (if has_tag ''seq'' src then
        (case FromString (payload ''seq'' src) of Inl e \<Rightarrow> Inl e
         | Inr elem_type \<Rightarrow> Inr (SeqType elem_type))
      else if has_tag ''map'' src then
        (case Find (payload_window ''map'' src) CHR '','' of
           None \<Rightarrow> Inl LengthError
         | Some key_size \<Rightarrow>
             (case FromString_DataType
                     (str (StringRange_ptr (buf (payload_window ''map'' src))
                             (m_data (payload_window ''map'' src)) key_size)) of
                Inl e \<Rightarrow> Inl e
              | Inr key_type \<Rightarrow>
                  (case FromString
                          (str (StringRange_ptr
                            (buf (snd (LStrip_range (StringRange_cstr '','')
                               (snd (LStrip_n key_size (payload_window ''map'' src))))))
                            (m_data (snd (LStrip_range (StringRange_cstr '','')
                               (snd (LStrip_n key_size (payload_window ''map'' src))))))
                            (m_size (snd (LStrip_range (StringRange_cstr '','')
                               (snd (LStrip_n key_size (payload_window ''map'' src)))))))) of
                     Inl e \<Rightarrow> Inl e
                   | Inr value_type \<Rightarrow> Inr (MapType key_type value_type))))
      else if has_tag ''record'' src then
        (case FromString_fields (snd (SplitRecords (payload_window ''record'' src) [])) of
           Inl e \<Rightarrow> Inl e | Inr field \<Rightarrow> Inr (RecordType field))
      else if has_tag ''union'' src then
        (case FromString_fields (snd (SplitRecords (payload_window ''union'' src) [])) of
           Inl e \<Rightarrow> Inl e | Inr choice \<Rightarrow> Inr (UnionType choice))
      else if has_tag ''sparse'' src then
        (case FromString_DataType (payload ''sparse'' src) of Inl e \<Rightarrow> Inl e
         | Inr e \<Rightarrow> Inr (SparseTensorType e))
      else
        (case FromString_DataType (trim src) of Inl e \<Rightarrow> Inl e
         | Inr e \<Rightarrow> Inr (TensorType e)))"
  by (subst FromString.simps)
     (simp add: has_tag_def payload_def payload_window_def Let_def str_StringRange_str
        cong: option.case_cong sum.case_cong)

lemma FromString_seq:
  "has_tag ''seq'' src \<Longrightarrow>
   FromString src = (case FromString (payload ''seq'' src) of Inl e \<Rightarrow> Inl e
                     | Inr t \<Rightarrow> Inr (SeqType t))"
  by (subst FromString_unfold) simp

lemma Find_None: "inb r \<Longrightarrow> Find r c = None \<longleftrightarrow> c \<notin> set (str r)"
  by (simp add: Find_eq)

lemma Find_Some:
  "inb r \<Longrightarrow> Find r c = Some n \<Longrightarrow>
   c \<in> set (str r) \<and> n = length (takeWhile (\<lambda>x. x \<noteq> c) (str r)) \<and> n \<le> m_size r"
  using length_takeWhile_le_m [of r "\<lambda>x. x \<noteq> c"]
  by (auto simp add: Find_eq split: if_splits)

lemma str_head_window:
  assumes "inb r" and "Find r c = Some n"
  shows "str (StringRange_ptr (buf r) (m_data r) n) = trim (takeWhile (\<lambda>x. x \<noteq> c) (str r))"
proof -
  from Find_Some [OF assms]
  have n: "n = length (takeWhile (\<lambda>x. x \<noteq> c) (str r))" "n \<le> m_size r" by simp_all
  have "take n (str r) = takeWhile (\<lambda>x. x \<noteq> c) (str r)"
    unfolding n(1) by (rule takeWhile_eq_take [symmetric])
  with str_sub_window [OF assms(1) n(2)] show ?thesis by simp
qed

lemma str_tail_window:
  assumes "inb r" and "Find r c = Some n"
    and "p = \<lparr>buf = [c], m_data = 0, m_size = 1, m_start = 0, m_end = 0\<rparr>"
  shows "str (snd (LStrip_range p (snd (LStrip_n n r)))) =
           drop 1 (dropWhile (\<lambda>x. x \<noteq> c) (str r))"
    and "inb (snd (LStrip_range p (snd (LStrip_n n r))))"
proof -
  from Find_Some [OF assms(1,2)]
  have n: "c \<in> set (str r)" "n = length (takeWhile (\<lambda>x. x \<noteq> c) (str r))" "n \<le> m_size r"
    by simp_all
  let ?r1 = "snd (LStrip_n n r)"
  have s1: "str ?r1 = dropWhile (\<lambda>x. x \<noteq> c) (str r)"
    using n(2,3) by (simp add: str_LStrip_n dropWhile_eq_drop)
  have i1: "inb ?r1" using assms(1) by (rule inb_LStrip_n)
  from n(1) have "dropWhile (\<lambda>x. x \<noteq> c) (str r) \<noteq> []" by simp
  moreover have "hd (dropWhile (\<lambda>x. x \<noteq> c) (str r)) = c"
    using hd_dropWhile [OF calculation] by simp
  ultimately obtain rest where rest: "dropWhile (\<lambda>x. x \<noteq> c) (str r) = c # rest"
    by (cases "dropWhile (\<lambda>x. x \<noteq> c) (str r)") auto
  have "m_size ?r1 = length (str ?r1)" using i1 by (simp add: length_str)
  with s1 rest have sw: "StartsWith ?r1 p"
    by (simp add: StartsWith_str assms(3)) (simp add: str_def)
  show "str (snd (LStrip_range p ?r1)) = drop 1 (dropWhile (\<lambda>x. x \<noteq> c) (str r))"
    using sw s1 by (simp add: str_LStrip_range assms(3))
  show "inb (snd (LStrip_range p ?r1))" using i1 by (rule inb_LStrip_range)
qed

lemma str_whole_window: "inb r \<Longrightarrow> str (StringRange_ptr (buf r) (m_data r) (m_size r)) = trim (str r)"
  using str_sub_window [of r "m_size r"] by (simp add: str_def)

text \<open>The map production, on the text between the parentheses.\<close>

lemma FromString_map:
  assumes "\<not> has_tag ''seq'' src" and "has_tag ''map'' src"
  shows "FromString src =
     (if CHR '','' \<notin> set (payload ''map'' src) then Inl LengthError
      else case FromString_DataType
                  (trim (takeWhile (\<lambda>x. x \<noteq> CHR '','') (payload ''map'' src))) of
             Inl e \<Rightarrow> Inl e
           | Inr key_type \<Rightarrow>
               (case FromString
                       (trim (drop 1 (dropWhile (\<lambda>x. x \<noteq> CHR '','') (payload ''map'' src)))) of
                  Inl e \<Rightarrow> Inl e
                | Inr value_type \<Rightarrow> Inr (MapType key_type value_type)))"
proof -
  let ?P = "payload_window ''map'' src"
  have i: "inb ?P" by (rule inb_payload_window)
  show ?thesis
  proof (cases "Find ?P CHR '',''")
    case None
    with i have "CHR '','' \<notin> set (payload ''map'' src)"
      by (simp add: Find_None payload_def)
    with None assms show ?thesis
      by (subst FromString_unfold) simp
  next
    case (Some n)
    from Find_Some [OF i Some] have c: "CHR '','' \<in> set (payload ''map'' src)"
      by (simp add: payload_def)
    note t = str_tail_window [OF i Some cstr_comma [symmetric, THEN sym]]
    have v: "str (StringRange_ptr
        (buf (snd (LStrip_range (StringRange_cstr '','') (snd (LStrip_n n ?P)))))
        (m_data (snd (LStrip_range (StringRange_cstr '','') (snd (LStrip_n n ?P)))))
        (m_size (snd (LStrip_range (StringRange_cstr '','') (snd (LStrip_n n ?P)))))) =
        trim (drop 1 (dropWhile (\<lambda>x. x \<noteq> CHR '','') (payload ''map'' src)))"
      using str_whole_window [OF t(2)] t(1) by (simp add: payload_def)
    have k: "str (StringRange_ptr (buf ?P) (m_data ?P) n) =
        trim (takeWhile (\<lambda>x. x \<noteq> CHR '','') (payload ''map'' src))"
      using str_head_window [OF i Some] by (simp add: payload_def)
    show ?thesis
      using assms Some c
      by (subst FromString_unfold) (simp add: k v cong: option.case_cong sum.case_cong)
  qed
qed

lemma FromString_sparse:
  "\<not> has_tag ''seq'' src \<Longrightarrow> \<not> has_tag ''map'' src \<Longrightarrow> \<not> has_tag ''record'' src \<Longrightarrow>
   \<not> has_tag ''union'' src \<Longrightarrow> has_tag ''sparse'' src \<Longrightarrow>
   FromString src = (case FromString_DataType (payload ''sparse'' src) of Inl e \<Rightarrow> Inl e
                     | Inr e \<Rightarrow> Inr (SparseTensorType e))"
  by (subst FromString_unfold) simp

lemma FromString_dense:
  "\<not> has_tag ''seq'' src \<Longrightarrow> \<not> has_tag ''map'' src \<Longrightarrow> \<not> has_tag ''record'' src \<Longrightarrow>
   \<not> has_tag ''union'' src \<Longrightarrow> \<not> has_tag ''sparse'' src \<Longrightarrow>
   FromString src = (case FromString_DataType (trim src) of Inl e \<Rightarrow> Inl e
                     | Inr e \<Rightarrow> Inr (TensorType e))"
  by (subst FromString_unfold) simp

lemma FromString_record:
  "\<not> has_tag ''seq'' src \<Longrightarrow> \<not> has_tag ''map'' src \<Longrightarrow> has_tag ''record'' src \<Longrightarrow>
   FromString src =
     (case FromString_fields (snd (SplitRecords (payload_window ''record'' src) [])) of
        Inl e \<Rightarrow> Inl e | Inr field \<Rightarrow> Inr (RecordType field))"
  by (subst FromString_unfold) simp

lemma FromString_union:
  "\<not> has_tag ''seq'' src \<Longrightarrow> \<not> has_tag ''map'' src \<Longrightarrow> \<not> has_tag ''record'' src \<Longrightarrow>
   has_tag ''union'' src \<Longrightarrow>
   FromString src =
     (case FromString_fields (snd (SplitRecords (payload_window ''union'' src) [])) of
        Inl e \<Rightarrow> Inl e | Inr choice \<Rightarrow> Inr (UnionType choice))"
  by (subst FromString_unfold) simp

text \<open>The loop over the records, on the text of each record.\<close>

lemma FromString_fields_Cons:
  assumes "inb f"
  shows "FromString_fields (f # fs) =
     (if CHR '':'' \<notin> set (str f) then Inl LengthError
      else case FromString (drop 1 (dropWhile (\<lambda>x. x \<noteq> CHR '':'') (str f))) of
             Inl e \<Rightarrow> Inl e
           | Inr type \<Rightarrow>
               (case FromString_fields fs of Inl e \<Rightarrow> Inl e
                | Inr rest \<Rightarrow>
                    Inr ((trim (takeWhile (\<lambda>x. x \<noteq> CHR '':'') (str f)), type) # rest)))"
proof (cases "Find f CHR '':''")
  case None
  with assms have "CHR '':'' \<notin> set (str f)" by (simp add: Find_None)
  with None show ?thesis by (subst FromString_fields.simps) simp
next
  case (Some n)
  from Find_Some [OF assms Some] have c: "CHR '':'' \<in> set (str f)" by simp
  note t = str_tail_window [OF assms Some cstr_colon [symmetric, THEN sym]]
  note k = str_head_window [OF assms Some]
  show ?thesis using Some c k t(1)
    by (subst FromString_fields.simps) (simp add: Let_def cong: option.case_cong sum.case_cong)
qed

subsection \<open>The splitter against the depth-aware split of the spec\<close>

lemma capt_RestartCapture: "inb r \<Longrightarrow> capt (RestartCapture r)"
  by (simp add: capt_def RestartCapture_def inb_def)

lemma cap_RestartCapture: "cap (RestartCapture r) = []"
  by (simp add: cap_def RestartCapture_def)

lemma GetCaptured_view:
  assumes "capt r"
  shows "str (GetCaptured r) = trim (cap r)" and "inb (GetCaptured r)"
proof -
  from assms have le: "m_start r + (m_end r - m_start r) \<le> length (buf r)"
    by (simp add: capt_def inb_def)
  show "str (GetCaptured r) = trim (cap r)"
    unfolding GetCaptured_def cap_def by (rule str_StringRange_ptr [OF le])
  show "inb (GetCaptured r)"
    unfolding GetCaptured_def by (rule inb_StringRange_ptr [OF le])
qed

lemma LStrip_one_view:
  assumes "capt r" and "str r = c # cs"
  shows "capt (snd (LStrip_n 1 r))" and "cap (snd (LStrip_n 1 r)) = cap r @ [c]"
    and "str (snd (LStrip_n 1 r)) = cs"
proof -
  from assms have i: "inb r" and e: "m_end r = m_data r" and s: "m_start r \<le> m_data r"
    by (simp_all add: capt_def)
  from i assms(2) have pos: "1 \<le> m_size r" using length_str [of r] by simp
  then have r': "snd (LStrip_n 1 r) =
      r\<lparr>m_data := m_data r + 1, m_size := m_size r - 1, m_end := m_end r + 1\<rparr>"
    by (simp add: LStrip_n_def)
  show "capt (snd (LStrip_n 1 r))"
    using i e s pos unfolding r' by (simp add: capt_def inb_def)
  show "str (snd (LStrip_n 1 r)) = cs"
    using str_LStrip_n [OF pos] assms(2) by simp
  have lt: "m_data r < length (buf r)" using i pos by (simp add: inb_def)
  have c: "buf r ! m_data r = c"
    using str_nth [OF i, of 0] pos assms(2) by simp
  let ?xs = "drop (m_start r) (buf r)"
  let ?k = "m_data r - m_start r"
  have k: "?k < length ?xs" using lt s by simp
  have "cap (snd (LStrip_n 1 r)) = take (Suc ?k) ?xs"
    unfolding r' using e s by (simp add: cap_def Suc_diff_le)
  also have "\<dots> = take ?k ?xs @ [?xs ! ?k]" using k by (rule take_Suc_conv_app_nth)
  also have "?xs ! ?k = c" using s lt c by simp
  finally show "cap (snd (LStrip_n 1 r)) = cap r @ [c]" using e by (simp add: cap_def)
qed

lemma StartsWith_char:
  assumes "inb r" and "p = \<lparr>buf = [c], m_data = 0, m_size = 1, m_start = 0, m_end = 0\<rparr>"
  shows "StartsWith r p \<longleftrightarrow> (\<exists>cs. str r = c # cs)"
proof -
  have "str p = [c]" by (simp add: assms(2) str_def)
  then have "StartsWith r p \<longleftrightarrow> 1 \<le> length (str r) \<and> take 1 (str r) = [c]"
    using assms by (simp add: StartsWith_str length_str)
  also have "\<dots> \<longleftrightarrow> (\<exists>cs. str r = c # cs)" by (cases "str r") auto
  finally show ?thesis .
qed

lemma LStrip_char:
  assumes "p = \<lparr>buf = [c], m_data = 0, m_size = 1, m_start = 0, m_end = 0\<rparr>"
  shows "snd (LStrip_range p r) = (if StartsWith r p then snd (LStrip_n 1 r) else r)"
  by (simp add: LStrip_range_def assms)

lemma SplitRecords_loop_view:
  "capt r \<Longrightarrow>
   map str (snd (SplitRecords_loop r d recs)) =
     map str recs @ map trim (depth_split d (cap r) (str r))
   \<and> (list_all inb recs \<longrightarrow> list_all inb (snd (SplitRecords_loop r d recs)))"
proof (induction r d recs rule: SplitRecords_loop.induct)
  case (1 p_src parens p_records)
  note capt = \<open>capt p_src\<close>
  then have inb: "inb p_src" by (simp add: capt_def)
  let ?goal = "\<lambda>res. map str (snd res) =
       map str p_records @ map trim (depth_split parens (cap p_src) (str p_src))
     \<and> (list_all inb p_records \<longrightarrow> list_all inb (snd res))"
  show ?case
  proof (cases "str p_src")
    case Nil
    with inb have "m_size p_src = 0" using length_str [of p_src] by simp
    then have "SplitRecords_loop p_src parens p_records = (p_src, p_records @ [GetCaptured p_src])"
      by (subst SplitRecords_loop.simps) simp
    with Nil GetCaptured_view [OF capt] show ?thesis by simp
  next
    case (Cons c cs)
    with inb have pos: "0 < m_size p_src" using length_str [of p_src] by simp
    note one = LStrip_one_view [OF capt Cons, unfolded One_nat_def]
    have sw: "\<And>x. StartsWith p_src
        \<lparr>buf = [x], m_data = 0, m_size = Suc 0, m_start = 0, m_end = 0\<rparr> \<longleftrightarrow> c = x"
      using StartsWith_char [OF inb refl] Cons by auto
    have st: "\<And>x. snd (LStrip_range
        \<lparr>buf = [x], m_data = 0, m_size = Suc 0, m_start = 0, m_end = 0\<rparr> p_src)
        = (if c = x then snd (LStrip_n (Suc 0) p_src) else p_src)"
      using LStrip_char [OF refl, of _ p_src] sw by simp
    show ?thesis
    proof (cases "c = CHR '',''")
      case comma: True
      then have swc: "StartsWith p_src (StringRange_cstr '','')" by (simp add: cstr_comma sw)
      have stc: "snd (LStrip_range (StringRange_cstr '','') p_src) = snd (LStrip_n (Suc 0) p_src)"
        using comma by (simp add: cstr_comma st)
      show ?thesis
      proof (cases "parens = 0")
        case True
        have eq: "SplitRecords_loop p_src parens p_records =
            SplitRecords_loop (RestartCapture (snd (LStrip_n (Suc 0) p_src))) parens
              (p_records @ [GetCaptured p_src])"
          using pos swc True stc by (subst SplitRecords_loop.simps) simp
        have c': "capt (RestartCapture (snd (LStrip_n (Suc 0) p_src)))"
          using one(1) by (intro capt_RestartCapture) (simp add: capt_def)
        from "1.IH"(1) [OF pos swc True] c' stc
        have "map str (snd (SplitRecords_loop (RestartCapture (snd (LStrip_n (Suc 0) p_src))) parens
                (p_records @ [GetCaptured p_src]))) =
              map str (p_records @ [GetCaptured p_src]) @
              map trim (depth_split parens [] cs)
            \<and> (list_all inb (p_records @ [GetCaptured p_src]) \<longrightarrow>
                list_all inb (snd (SplitRecords_loop (RestartCapture (snd (LStrip_n (Suc 0) p_src)))
                  parens (p_records @ [GetCaptured p_src]))))"
          by (simp add: cap_RestartCapture str_RestartCapture one(3))
        with eq Cons comma True GetCaptured_view [OF capt] show ?thesis by simp
      next
        case False
        have eq: "SplitRecords_loop p_src parens p_records =
            SplitRecords_loop (snd (LStrip_n (Suc 0) p_src)) parens p_records"
          using pos swc False stc by (subst SplitRecords_loop.simps) simp
        from "1.IH"(2) [OF pos swc False] one stc eq Cons comma False
        show ?thesis by simp
      qed
    next
      case nc: False
      then have nsw: "\<not> StartsWith p_src (StringRange_cstr '','')"
        by (simp add: cstr_comma sw)
      show ?thesis
      proof (cases "c = CHR ''(''")
        case True
        then have f: "fst (LStrip_range (StringRange_cstr ''('') p_src)"
          by (simp add: fst_LStrip_range cstr_open sw)
        have sto: "snd (LStrip_range (StringRange_cstr ''('') p_src) = snd (LStrip_n (Suc 0) p_src)"
          using True by (simp add: cstr_open st)
        have eq: "SplitRecords_loop p_src parens p_records =
            SplitRecords_loop (snd (LStrip_n (Suc 0) p_src)) (parens + 1) p_records"
          using pos nsw f sto by (subst SplitRecords_loop.simps) simp
        from "1.IH"(3) [OF pos nsw f] one sto eq Cons nc True
        show ?thesis by simp
      next
        case no: False
        then have nf: "\<not> fst (LStrip_range (StringRange_cstr ''('') p_src)"
          by (simp add: fst_LStrip_range cstr_open sw)
        show ?thesis
        proof (cases "c = CHR '')''")
          case True
          then have f: "fst (LStrip_range (StringRange_cstr '')'') p_src)"
            by (simp add: fst_LStrip_range cstr_close sw)
          have ste: "snd (LStrip_range (StringRange_cstr '')'') p_src) = snd (LStrip_n (Suc 0) p_src)"
            using True by (simp add: cstr_close st)
          have eq: "SplitRecords_loop p_src parens p_records =
              SplitRecords_loop (snd (LStrip_n (Suc 0) p_src)) (parens - 1) p_records"
            using pos nsw nf f ste by (subst SplitRecords_loop.simps) simp
          from "1.IH"(4) [OF pos nsw nf f] one ste eq Cons nc no True
          show ?thesis by simp
        next
          case False
          then have nf': "\<not> fst (LStrip_range (StringRange_cstr '')'') p_src)"
            by (simp add: fst_LStrip_range cstr_close sw)
          have eq: "SplitRecords_loop p_src parens p_records =
              SplitRecords_loop (snd (LStrip_n (Suc 0) p_src)) parens p_records"
            using pos nsw nf nf' by (subst SplitRecords_loop.simps) simp
          from "1.IH"(5) [OF pos nsw nf nf'] one eq Cons nc no False
          show ?thesis by simp
        qed
      qed
    qed
  qed
qed

lemma SplitRecords_view:
  assumes "inb r"
  shows "map str (snd (SplitRecords r [])) = map trim (depth_split 0 [] (str r))"
    and "list_all inb (snd (SplitRecords r []))"
  using SplitRecords_loop_view [OF capt_RestartCapture [OF assms], of 0 "[]"]
  by (simp_all add: SplitRecords_def cap_RestartCapture str_RestartCapture)

subsection \<open>Texts the parser reads back\<close>

lemma trim_id: "s = [] \<or> (\<not> isspace (hd s) \<and> \<not> isspace (last s)) \<Longrightarrow> trim s = s"
proof (cases "s = []")
  case True
  then show ?thesis by (simp add: trim_def)
next
  case False
  assume "s = [] \<or> (\<not> isspace (hd s) \<and> \<not> isspace (last s))"
  with False have h: "\<not> isspace (hd s)" and l: "\<not> isspace (last s)" by simp_all
  from False h have a: "dropWhile isspace s = s" by (cases s) simp_all
  from False l have "dropWhile isspace (rev s) = rev s"
    by (cases "rev s") (simp_all add: last_rev [symmetric] hd_rev)
  with a show ?thesis by (simp add: trim_def)
qed

lemma trim_clean: "clean s \<Longrightarrow> trim s = s"
  by (rule trim_id) (simp add: clean_def)

lemma clean_append: "clean a \<Longrightarrow> clean b \<Longrightarrow> clean (a @ m @ b)"
  by (simp add: clean_def)

lemma clean_wrap: "\<not> isspace c \<Longrightarrow> clean (c # x @ '')'')"
  by (simp add: clean_def isspace_def)

text \<open>A keyword matches when the trimmed text starts with it.\<close>

lemma has_tag_lit:
  assumes "StringRange_cstr kw = \<lparr>buf = kw, m_data = 0, m_size = length kw, m_start = 0, m_end = 0\<rparr>"
  shows "has_tag kw src \<longleftrightarrow> (\<exists>rest. trim src = kw @ rest)"
proof -
  have "str (StringRange_cstr kw) = kw" by (simp add: assms str_def)
  then have "has_tag kw src \<longleftrightarrow>
      length kw \<le> length (trim src) \<and> take (length kw) (trim src) = kw"
    using length_str [OF inb_StringRange_str, of src]
    by (simp add: has_tag_def fst_LStrip_range StartsWith_str assms str_StringRange_str)
  also have "\<dots> \<longleftrightarrow> (\<exists>rest. trim src = kw @ rest)"
    by (metis append_eq_conv_conj append_take_drop_id le_add1 length_append)
  finally show ?thesis .
qed

lemma lit_keywords:
  "StringRange_cstr ''seq'' =
     \<lparr>buf = ''seq'', m_data = 0, m_size = length ''seq'', m_start = 0, m_end = 0\<rparr>"
  "StringRange_cstr ''map'' =
     \<lparr>buf = ''map'', m_data = 0, m_size = length ''map'', m_start = 0, m_end = 0\<rparr>"
  "StringRange_cstr ''record'' =
     \<lparr>buf = ''record'', m_data = 0, m_size = length ''record'', m_start = 0, m_end = 0\<rparr>"
  "StringRange_cstr ''union'' =
     \<lparr>buf = ''union'', m_data = 0, m_size = length ''union'', m_start = 0, m_end = 0\<rparr>"
  "StringRange_cstr ''sparse'' =
     \<lparr>buf = ''sparse'', m_data = 0, m_size = length ''sparse'', m_start = 0, m_end = 0\<rparr>"
  by (simp_all add: cstr_lits)

lemma has_tag_simps:
  "has_tag ''seq'' src \<longleftrightarrow> (\<exists>rest. trim src = ''seq'' @ rest)"
  "has_tag ''map'' src \<longleftrightarrow> (\<exists>rest. trim src = ''map'' @ rest)"
  "has_tag ''record'' src \<longleftrightarrow> (\<exists>rest. trim src = ''record'' @ rest)"
  "has_tag ''union'' src \<longleftrightarrow> (\<exists>rest. trim src = ''union'' @ rest)"
  "has_tag ''sparse'' src \<longleftrightarrow> (\<exists>rest. trim src = ''sparse'' @ rest)"
  by (rule has_tag_lit, rule lit_keywords)+

lemma str_ParensWhitespaceStrip:
  assumes "inb r" and "str r = CHR ''('' # x @ '')''" and "clean x"
  shows "str (ParensWhitespaceStrip r) = x"
proof -
  let ?r1 = "snd (LStrip_ws r)"
  let ?r2 = "snd (LStrip_range (StringRange_cstr ''('') ?r1)"
  let ?r3 = "snd (LAndRStrip ?r2)"
  let ?r4 = "snd (RStrip_range (StringRange_cstr '')'') ?r3)"
  let ?r5 = "snd (RStrip_ws ?r4)"
  from assms(3) have x: "x \<noteq> []" "\<not> isspace (hd x)" "\<not> isspace (last x)"
    by (simp_all add: clean_def)
  have i1: "inb ?r1" using assms(1) by (rule inb_LStrip_ws)
  have s1: "str ?r1 = CHR ''('' # x @ '')''"
    using assms(1,2) by (simp add: str_LStrip_ws isspace_def)
  have sw: "StartsWith ?r1 (StringRange_cstr ''('')"
    using StartsWith_char [OF i1 cstr_open [unfolded One_nat_def [symmetric]]] s1
    by (simp add: cstr_open)
  have i2: "inb ?r2" using i1 by (rule inb_LStrip_range)
  have s2: "str ?r2 = x @ '')''" using sw s1 by (simp add: str_LStrip_range cstr_open)
  have i3: "inb ?r3" using i2 by (rule inb_LAndRStrip)
  have "trim (x @ '')'') = x @ '')''"
    using x by (intro trim_id) (simp add: isspace_def)
  then have s3: "str ?r3 = x @ '')''" using i2 s2 by (simp add: str_LAndRStrip)
  have m3: "m_size ?r3 = Suc (length x)" using length_str [OF i3] s3 by simp
  have ew: "EndsWith ?r3 (StringRange_cstr '')'')"
    using s3 m3 by (simp add: EndsWith_str cstr_close) (simp add: str_def)
  have i4: "inb ?r4" using i3 by (rule inb_RStrip_range)
  have s4: "str ?r4 = x" using ew s3 m3 by (simp add: str_RStrip_range cstr_close)
  have "rev (dropWhile isspace (rev x)) = x"
    using x by (cases "rev x") (simp_all add: last_rev [symmetric] hd_rev)
  then have "str ?r5 = x" using i4 s4 by (simp add: str_RStrip_ws)
  then show ?thesis by (simp add: ParensWhitespaceStrip_def)
qed

lemma payload_wrap:
  assumes lit: "StringRange_cstr kw = \<lparr>buf = kw, m_data = 0, m_size = length kw, m_start = 0, m_end = 0\<rparr>"
    and src: "trim src = kw @ CHR ''('' # x @ '')''" and x: "clean x"
  shows "has_tag kw src" and "payload kw src = x" and "str (payload_window kw src) = x"
proof -
  show t: "has_tag kw src" using src by (simp add: has_tag_lit [OF lit])
  let ?s = "snd (LStrip_range (StringRange_cstr kw) (StringRange_str src))"
  from t have sw: "StartsWith (StringRange_str src) (StringRange_cstr kw)"
    by (simp add: has_tag_def fst_LStrip_range)
  have "str ?s = drop (length kw) (trim src)"
    using sw by (simp add: str_LStrip_range str_StringRange_str lit)
  with src have s: "str ?s = CHR ''('' # x @ '')''" by simp
  have i: "inb ?s" by (intro inb_LStrip_range inb_StringRange_str)
  show "str (payload_window kw src) = x"
    unfolding payload_window_def by (rule str_ParensWhitespaceStrip [OF i s x])
  then show "payload kw src = x" by (simp add: payload_def)
qed

lemma depth_split_plain:
  "plain s \<Longrightarrow> depth_split d acc (s @ rest) = depth_split d (acc @ s) rest"
  by (induction s arbitrary: acc) (simp_all add: plain_def)

lemma ns_plain: "plain s \<Longrightarrow> ns n s"
  by (simp add: ns_def depth_split_plain)

lemma ns_mono: "ns n s \<Longrightarrow> n \<le> m \<Longrightarrow> ns m s"
  by (simp add: ns_def)

lemma ns_append: "ns n a \<Longrightarrow> ns n b \<Longrightarrow> ns n (a @ b)"
  by (simp add: ns_def)

lemma ns_comma: "ns 1 '',''"
  by (simp add: ns_def)

lemma ns_parens: "ns 1 x \<Longrightarrow> ns 0 (CHR ''('' # x @ '')'')"
proof -
  assume x: "ns 1 x"
  show ?thesis
    unfolding ns_def
  proof (intro allI impI)
    fix d :: int and acc rest
    assume d: "0 \<le> d"
    then have "1 \<le> d + 1" by simp
    with x have "depth_split (d + 1) (acc @ ''('') (x @ CHR '')'' # rest) =
        depth_split (d + 1) ((acc @ ''('') @ x) (CHR '')'' # rest)"
      unfolding ns_def by blast
    then show "depth_split d acc ((CHR ''('' # x @ '')'') @ rest) =
        depth_split d (acc @ CHR ''('' # x @ '')'') rest"
      by simp
  qed
qed

subsection \<open>The round trip\<close>

lemma prim_name:
  assumes "e \<noteq> UNDEFINED"
  obtains p where "ToString_DataType e = Inr p" "FromString_DataType p = Inr e"
    "clean p" "plain p" "CHR '','' \<notin> set p"
    "\<not> has_tag ''seq'' p" "\<not> has_tag ''map'' p" "\<not> has_tag ''record'' p"
    "\<not> has_tag ''union'' p" "\<not> has_tag ''sparse'' p"
proof -
  from assms obtain p where p: "ToString_DataType e = Inr p" by (cases e) simp_all
  have f: "FromString_DataType p = Inr e" using p by (rule FromString_ToString_DataType)
  have c: "clean p \<and> plain p" using p
    by (cases e) (auto simp add: c_defs clean_def plain_def isspace_def)
  then have t: "trim p = p" by (simp add: trim_clean)
  have "\<not> has_tag ''seq'' p \<and> \<not> has_tag ''map'' p \<and> \<not> has_tag ''record'' p
      \<and> \<not> has_tag ''union'' p \<and> \<not> has_tag ''sparse'' p"
    unfolding has_tag_simps t using p by (cases e) (auto simp add: c_defs)
  with p f c that show ?thesis by (auto simp add: plain_def)
qed

lemma good_Tensor: "e \<noteq> UNDEFINED \<Longrightarrow> good (TensorType e)"
proof -
  assume "e \<noteq> UNDEFINED"
  then obtain p where p: "ToString_DataType e = Inr p" "FromString_DataType p = Inr e"
    "clean p" "plain p"
    "\<not> has_tag ''seq'' p" "\<not> has_tag ''map'' p" "\<not> has_tag ''record'' p"
    "\<not> has_tag ''union'' p" "\<not> has_tag ''sparse'' p"
    by (rule prim_name)
  have s: "the_str (TensorType e) = p" using p(1) by (simp add: the_str_def)
  have "FromString p = Inr (TensorType e)"
    using p by (simp add: FromString_dense trim_clean)
  with p s show ?thesis by (simp add: good_def ns_plain)
qed

lemma good_Sparse: "e \<noteq> UNDEFINED \<Longrightarrow> good (SparseTensorType e)"
proof -
  assume "e \<noteq> UNDEFINED"
  then obtain p where p: "ToString_DataType e = Inr p" "FromString_DataType p = Inr e"
    "clean p" "plain p"
    by (rule prim_name)
  let ?s = "''sparse'' @ CHR ''('' # p @ '')''"
  have s: "the_str (SparseTensorType e) = ?s" using p(1) by (simp add: the_str_def)
  have c: "clean ?s" by (simp add: clean_def isspace_def)
  then have t: "trim ?s = ?s" by (rule trim_clean)
  note w = payload_wrap [OF lit_keywords(5) t p(3)]
  have n: "\<not> has_tag ''seq'' ?s" "\<not> has_tag ''map'' ?s" "\<not> has_tag ''record'' ?s"
    "\<not> has_tag ''union'' ?s"
    unfolding has_tag_simps t by simp_all
  have "FromString ?s = Inr (SparseTensorType e)"
    using n w p(2) by (simp add: FromString_sparse)
  moreover have "ns 0 ?s"
    by (intro ns_append ns_plain ns_parens) (simp_all add: plain_def p(4) [unfolded plain_def])
  ultimately show ?thesis using p(1) s c by (simp add: good_def)
qed

lemma good_Seq: "good t \<Longrightarrow> good (SeqType t)"
proof -
  assume g: "good t"
  let ?x = "the_str t"
  let ?s = "''seq'' @ CHR ''('' # ?x @ '')''"
  from g have x: "ToString t = Inr ?x" "FromString ?x = Inr t" "clean ?x" "ns 0 ?x"
    by (simp_all add: good_def)
  have s: "ToString (SeqType t) = Inr ?s" using x(1) by simp
  then have s': "the_str (SeqType t) = ?s" by (simp add: the_str_def)
  have c: "clean ?s" by (simp add: clean_def isspace_def)
  then have t: "trim ?s = ?s" by (rule trim_clean)
  note w = payload_wrap [OF lit_keywords(1) t x(3)]
  have "FromString ?s = Inr (SeqType t)" using w x(2) by (simp add: FromString_seq)
  moreover have "ns 0 ?s"
    by (intro ns_append ns_plain ns_parens ns_mono [OF x(4)]) (simp_all add: plain_def)
  ultimately show ?thesis using s c unfolding good_def s' by simp
qed

lemma good_Map: "k \<noteq> UNDEFINED \<Longrightarrow> good v \<Longrightarrow> good (MapType k v)"
proof -
  assume "k \<noteq> UNDEFINED" and g: "good v"
  then obtain p where p: "ToString_DataType k = Inr p" "FromString_DataType p = Inr k"
    "clean p" "plain p" "CHR '','' \<notin> set p"
    by (rule_tac prim_name)
  let ?x = "the_str v"
  let ?i = "p @ '','' @ ?x"
  let ?s = "''map'' @ CHR ''('' # ?i @ '')''"
  from g have x: "ToString v = Inr ?x" "FromString ?x = Inr v" "clean ?x" "ns 0 ?x"
    by (simp_all add: good_def)
  have s: "ToString (MapType k v) = Inr ?s" using x(1) p(1) by simp
  then have s': "the_str (MapType k v) = ?s" by (simp add: the_str_def)
  have c: "clean ?s" by (simp add: clean_def isspace_def)
  then have t: "trim ?s = ?s" by (rule trim_clean)
  have ci: "clean ?i" using p(3) x(3) by (rule clean_append)
  note w = payload_wrap [OF lit_keywords(2) t ci]
  have n: "\<not> has_tag ''seq'' ?s" unfolding has_tag_simps t by simp
  have tk: "takeWhile (\<lambda>x. x \<noteq> CHR '','') ?i = p"
    using p(5) by (subst takeWhile_append2) auto
  have dk: "dropWhile (\<lambda>x. x \<noteq> CHR '','') ?i = '','' @ ?x"
    using p(5) by (subst dropWhile_append2) auto
  have "FromString ?s = Inr (MapType k v)"
    unfolding FromString_map [OF n w(1)] w(2) tk dk
    using p(2,3) x(2,3) by (simp add: trim_clean)
  moreover have "ns 0 ?s"
    by (intro ns_append ns_plain ns_parens ns_mono [OF x(4)] ns_comma p(4))
       (simp_all add: plain_def)
  ultimately show ?thesis using s c unfolding good_def s' by simp
qed

lemma ToString_fields_join:
  "fs \<noteq> [] \<Longrightarrow> (\<forall>x \<in> set fs. ToString (snd x) = Inr (the_str (snd x))) \<Longrightarrow>
   ToString_fields fs = Inr (join fs @ '')'')"
proof (induction fs rule: join.induct)
  case 1
  then show ?case by simp
next
  case (2 x)
  then show ?case by (cases x) (simp add: seg_def)
next
  case (3 x y r)
  then show ?case by (cases x; cases y) (simp add: seg_def)
qed

lemma depth_split_join:
  "fs \<noteq> [] \<Longrightarrow> (\<forall>x \<in> set fs. ns 0 (seg x)) \<Longrightarrow>
   depth_split 0 acc (join fs) = (acc @ seg (hd fs)) # map seg (tl fs)"
proof (induction fs arbitrary: acc rule: join.induct)
  case 1
  then show ?case by simp
next
  case (2 x)
  then have "ns 0 (seg x)" by simp
  then have "depth_split 0 acc (seg x @ []) = depth_split 0 (acc @ seg x) []"
    unfolding ns_def by blast
  then show ?case by simp
next
  case (3 x y r)
  from 3(3) have "ns 0 (seg x)" by simp
  then have "depth_split 0 acc (seg x @ '','' @ join (y # r)) =
      depth_split 0 (acc @ seg x) ('','' @ join (y # r))"
    unfolding ns_def by blast
  also have "\<dots> = (acc @ seg x) # depth_split 0 [] (join (y # r))" by simp
  also have "depth_split 0 [] (join (y # r)) = ([] @ seg (hd (y # r))) # map seg (tl (y # r))"
    using 3(3) by (intro 3(1)) simp_all
  finally show ?case by simp
qed

lemma clean_seg:
  assumes "wf_name (fst x)" and "clean (the_str (snd x))"
  shows "clean (seg x)"
proof -
  let ?n = "fst x" and ?s = "the_str (snd x)"
  from assms(2) have s: "?s \<noteq> []" "\<not> isspace (last ?s)" by (simp_all add: clean_def)
  have l: "last (seg x) = last ?s" using s(1) by (simp add: seg_def)
  have h: "\<not> isspace (hd (seg x))"
  proof (cases "?n = []")
    case True
    then show ?thesis by (simp add: seg_def isspace_def)
  next
    case False
    with assms(1) have "\<not> isspace (hd ?n)" by (simp add: wf_name_def)
    with False show ?thesis by (simp add: seg_def)
  qed
  show ?thesis using h l s(2) by (simp add: clean_def seg_def)
qed

lemma ns_seg:
  assumes "wf_name (fst x)" and "ns 0 (the_str (snd x))"
  shows "ns 0 (seg x)"
proof -
  have a: "plain (fst x)"
    using assms(1) by (auto simp add: wf_name_def plain_def list_all_iff)
  have b: "plain '':''" by (simp add: plain_def)
  show ?thesis
    unfolding seg_def by (intro ns_append ns_plain [OF a] ns_plain [OF b] assms(2))
qed

lemma clean_join: "fs \<noteq> [] \<Longrightarrow> (\<forall>x \<in> set fs. clean (seg x)) \<Longrightarrow> clean (join fs)"
proof (induction fs rule: join.induct)
  case 1
  then show ?case by simp
next
  case (2 x)
  then show ?case by simp
next
  case (3 x y r)
  have a: "clean (seg x)" using "3.prems"(2) by simp
  have b: "clean (join (y # r))" using "3.prems"(2) by (intro "3.IH") simp_all
  have "clean (seg x @ '','' @ join (y # r))" using a b by (rule clean_append)
  then show ?case by simp
qed

lemma ns_join: "(\<forall>x \<in> set fs. ns 0 (seg x)) \<Longrightarrow> ns 1 (join fs)"
proof (induction fs rule: join.induct)
  case 1
  show ?case by (simp add: ns_def)
next
  case (2 x)
  then have "ns 0 (seg x)" by simp
  then have "ns 1 (seg x)" by (rule ns_mono) simp
  then show ?case by simp
next
  case (3 x y r)
  have "ns 0 (seg x)" using "3.prems" by simp
  then have a: "ns 1 (seg x)" by (rule ns_mono) simp
  have b: "ns 1 (join (y # r))" using "3.prems" by (intro "3.IH") simp_all
  have "ns 1 (seg x @ '','' @ join (y # r))" by (intro ns_append ns_comma a b)
  then show ?case by simp
qed

lemma FromString_fields_segs:
  "list_all inb ws \<Longrightarrow> map str ws = map seg fs \<Longrightarrow>
   (\<forall>x \<in> set fs. wf_name (fst x) \<and> FromString (the_str (snd x)) = Inr (snd x)) \<Longrightarrow>
   FromString_fields ws = Inr fs"
proof (induction fs arbitrary: ws)
  case Nil
  then show ?case by (simp add: FromString_fields.simps)
next
  case (Cons x fs)
  from Cons.prems(2) obtain w ws' where ws: "ws = w # ws'" by (cases ws) auto
  with Cons.prems have w: "inb w" "str w = seg x" and ws': "list_all inb ws'" "map str ws' = map seg fs"
    by simp_all
  from Cons.prems(3) have n: "wf_name (fst x)" and f: "FromString (the_str (snd x)) = Inr (snd x)"
    by simp_all
  from n have nc: "CHR '':'' \<notin> set (fst x)" by (auto simp add: wf_name_def list_all_iff)
  have tk: "takeWhile (\<lambda>c. c \<noteq> CHR '':'') (seg x) = fst x"
    unfolding seg_def using nc by (subst takeWhile_append2) auto
  have dk: "dropWhile (\<lambda>c. c \<noteq> CHR '':'') (seg x) = '':'' @ the_str (snd x)"
    unfolding seg_def using nc by (subst dropWhile_append2) auto
  have tn: "trim (fst x) = fst x" using n by (intro trim_id) (simp add: wf_name_def)
  have rest: "FromString_fields ws' = Inr fs"
    using ws' Cons.prems(3) by (intro Cons.IH) simp_all
  have "FromString_fields (w # ws') = Inr ((fst x, snd x) # fs)"
    unfolding FromString_fields_Cons [OF w(1)] w(2) tk dk
    using f rest tn by (simp add: seg_def)
  with ws show ?case by simp
qed

lemma good_fields:
  assumes lit: "StringRange_cstr kw = \<lparr>buf = kw, m_data = 0, m_size = length kw, m_start = 0, m_end = 0\<rparr>"
    and kw: "plain kw" "clean kw"
    and fs: "fs \<noteq> []" "\<forall>x \<in> set fs. wf_name (fst x) \<and> good (snd x)"
  shows "ToString_fields fs = Inr (join fs @ '')'')"
    and "trim (kw @ CHR ''('' # join fs @ '')'') = kw @ CHR ''('' # join fs @ '')''"
    and "has_tag kw (kw @ CHR ''('' # join fs @ '')'')"
    and "FromString_fields (snd (SplitRecords (payload_window kw (kw @ CHR ''('' # join fs @ '')'')) []))
           = Inr fs"
    and "clean (kw @ CHR ''('' # join fs @ '')'')"
    and "ns 0 (kw @ CHR ''('' # join fs @ '')'')"
proof -
  let ?s = "kw @ CHR ''('' # join fs @ '')''"
  from fs(2) have g: "\<forall>x \<in> set fs. ToString (snd x) = Inr (the_str (snd x))"
    and p: "\<forall>x \<in> set fs. wf_name (fst x) \<and> FromString (the_str (snd x)) = Inr (snd x)"
    and cs: "\<forall>x \<in> set fs. clean (seg x)"
    and nss: "\<forall>x \<in> set fs. ns 0 (seg x)"
    by (auto simp add: good_def clean_seg ns_seg)
  show "ToString_fields fs = Inr (join fs @ '')'')" using fs(1) g by (rule ToString_fields_join)
  show c: "clean ?s" using kw(2) by (auto simp add: clean_def isspace_def)
  then show t: "trim ?s = ?s" by (rule trim_clean)
  have cj: "clean (join fs)" using fs(1) cs by (rule clean_join)
  note w = payload_wrap [OF lit t cj]
  show "has_tag kw ?s" by (rule w(1))
  let ?P = "payload_window kw ?s"
  have i: "inb ?P" by (rule inb_payload_window)
  note v = SplitRecords_view [OF i]
  have "depth_split 0 [] (join fs) = map seg fs"
    using depth_split_join [OF fs(1) nss, of "[]"] fs(1) by (cases fs) simp_all
  with v(1) w(3) have "map str (snd (SplitRecords ?P [])) = map trim (map seg fs)" by simp
  also have "\<dots> = map seg fs" using cs by (simp add: trim_clean)
  finally show "FromString_fields (snd (SplitRecords ?P [])) = Inr fs"
    using v(2) p by (intro FromString_fields_segs)
  show "ns 0 ?s"
    by (intro ns_append ns_plain ns_parens ns_join nss kw(1))
qed

lemma good_Record:
  assumes "fs \<noteq> []" and "\<forall>x \<in> set fs. wf_name (fst x) \<and> good (snd x)"
  shows "good (RecordType fs)"
proof -
  let ?s = "''record'' @ CHR ''('' # join fs @ '')''"
  have kw: "plain ''record''" "clean ''record''"
    by (simp_all add: plain_def clean_def isspace_def)
  note f = good_fields [OF lit_keywords(3) kw assms]
  have s: "ToString (RecordType fs) = Inr ?s" using f(1) by simp
  then have s': "the_str (RecordType fs) = ?s" by (simp add: the_str_def)
  have n: "\<not> has_tag ''seq'' ?s" "\<not> has_tag ''map'' ?s"
    unfolding has_tag_simps f(2) by simp_all
  have "FromString ?s = Inr (RecordType fs)"
    unfolding FromString_record [OF n f(3)] f(4) by simp
  with s f(5,6) show ?thesis unfolding good_def s' by simp
qed

lemma good_Union:
  assumes "cs \<noteq> []" and "\<forall>x \<in> set cs. wf_name (fst x) \<and> good (snd x)"
  shows "good (UnionType cs)"
proof -
  let ?s = "''union'' @ CHR ''('' # join cs @ '')''"
  have kw: "plain ''union''" "clean ''union''"
    by (simp_all add: plain_def clean_def isspace_def)
  note f = good_fields [OF lit_keywords(4) kw assms]
  have s: "ToString (UnionType cs) = Inr ?s" using f(1) by simp
  then have s': "the_str (UnionType cs) = ?s" by (simp add: the_str_def)
  have n: "\<not> has_tag ''seq'' ?s" "\<not> has_tag ''map'' ?s" "\<not> has_tag ''record'' ?s"
    unfolding has_tag_simps f(2) by simp_all
  have "FromString ?s = Inr (UnionType cs)"
    unfolding FromString_union [OF n f(3)] f(4) by simp
  with s f(5,6) show ?thesis unfolding good_def s' by simp
qed

text \<open>Every well-formed descriptor serializes to a text that parses back to it.\<close>

lemma wf_type_good: "wf_type t \<Longrightarrow> good t"
proof (induction t)
  case VALUE_NOT_SET
  then show ?case by simp
next
  case (TensorType e)
  then show ?case by (simp add: good_Tensor)
next
  case (SparseTensorType e)
  then show ?case by (simp add: good_Sparse)
next
  case (SeqType t)
  then show ?case by (simp add: good_Seq)
next
  case (MapType k v)
  then show ?case by (simp add: good_Map)
next
  case (RecordType fs)
  have "\<forall>x \<in> set fs. wf_name (fst x) \<and> good (snd x)"
  proof
    fix x assume x: "x \<in> set fs"
    with RecordType.prems have w: "wf_name (fst x)" "wf_type (snd x)" by simp_all
    have "snd x \<in> Basic_BNFs.snds x" by (cases x) simp
    from RecordType.IH [OF x this w(2)] w(1) show "wf_name (fst x) \<and> good (snd x)" by simp
  qed
  with RecordType.prems show ?case by (intro good_Record) simp_all
next
  case (UnionType cs)
  have "\<forall>x \<in> set cs. wf_name (fst x) \<and> good (snd x)"
  proof
    fix x assume x: "x \<in> set cs"
    with UnionType.prems have w: "wf_name (fst x)" "wf_type (snd x)" by simp_all
    have "snd x \<in> Basic_BNFs.snds x" by (cases x) simp
    from UnionType.IH [OF x this w(2)] w(1) show "wf_name (fst x) \<and> good (snd x)" by simp
  qed
  with UnionType.prems show ?case by (intro good_Union) simp_all
qed

lemma roundtrip:
  "wf_type t \<Longrightarrow> ToString t = Inr (the_str t) \<and> FromString (the_str t) = Inr t"
  using wf_type_good [of t] by (simp add: good_def)

subsection \<open>What a successful parse holds\<close>







subsection \<open>Literals as patterns\<close>

lemma cstr_clean:
  assumes "clean lit" and "CHR 0x00 \<notin> set lit"
  shows "StringRange_cstr lit =
           \<lparr>buf = lit, m_data = 0, m_size = length lit, m_start = 0, m_end = 0\<rparr>"
proof -
  let ?r = "\<lparr>buf = lit, m_data = 0, m_size = length lit, m_start = 0, m_end = 0\<rparr>"
  from assms(2) have "takeWhile (\<lambda>c. c \<noteq> CHR 0x00) lit = lit"
    by (intro takeWhile_eq_all_conv [THEN iffD2]) auto
  then have n: "strlen lit = length lit" by (simp only: strlen_def)
  have i: "inb ?r" by (simp add: inb_def)
  have s: "str ?r = lit" by (simp add: str_def)
  from assms(1) have c: "lit \<noteq> []" "\<not> isspace (hd lit)" "\<not> isspace (last lit)"
    by (simp_all add: clean_def)
  have "takeWhile isspace lit = []" using c(1,2) by (cases lit) simp_all
  then have l: "LStrip_loop ?r 0 = 0" using LStrip_loop_eq [OF i, of 0] s by simp
  have "takeWhile isspace (rev lit) = []"
    using c(1,3) by (cases "rev lit") (simp_all add: last_rev [symmetric] hd_rev)
  then have r: "RStrip_loop ?r 0 = 0" using RStrip_loop_eq [OF i, of 0] s by simp
  from l r have "LAndRStrip ?r = (False, ?r)"
    by (simp add: LAndRStrip_def LStrip_ws_def RStrip_ws_def)
  with n show ?thesis by (simp add: StringRange_cstr_def)
qed

lemma set_dropWhile: "c \<in> set s \<Longrightarrow> \<not> P c \<Longrightarrow> c \<in> set (dropWhile P s)"
  by (induction s) auto

lemma set_trim: "c \<in> set s \<Longrightarrow> \<not> isspace c \<Longrightarrow> c \<in> set (trim s)"
proof -
  assume a: "c \<in> set s" "\<not> isspace c"
  then have "c \<in> set (rev (dropWhile isspace s))" by (simp add: set_dropWhile)
  then have "c \<in> set (dropWhile isspace (rev (dropWhile isspace s)))"
    using a(2) by (rule set_dropWhile)
  then show ?thesis by (simp add: trim_def)
qed

lemma allowed_no_paren: "IsValidDataTypeString p \<Longrightarrow> CHR ''('' \<notin> set p"
  unfolding IsValid_names by (elim disjE) (simp_all add: c_defs)

subsection \<open>Texts with a name that is not allowed\<close>







section \<open>The claims\<close>

text \<open>
  C1, as the spec states it, fails: the serializer writes the name of a field or choice as
  it is, and the parser cuts a record at commas, a field at its first colon, and trims
  every window. A record whose one field is named \<^verbatim>\<open>a:b\<close> serializes to a text that does
  not parse; a name with a comma, an opening or a closing parenthesis does the same; and a
  name with a space at either end comes back without it.
\<close>

theorem C1_counterexample:
  "ToString (RecordType [(''a:b'', TensorType FLOAT)]) = Inr ''record(a:b:float)''
   \<and> FromString ''record(a:b:float)'' = Inl (InvalidArgument ''Unknown DataType: b:float'')
   \<and> ToString (RecordType [(''a,b'', TensorType FLOAT)]) = Inr ''record(a,b:float)''
   \<and> FromString ''record(a,b:float)'' = Inl LengthError
   \<and> ToString (RecordType [(''a('', TensorType FLOAT), (''b'', TensorType FLOAT)]) =
       Inr ''record(a(:float,b:float)''
   \<and> FromString ''record(a(:float,b:float)'' =
       Inl (InvalidArgument ''Unknown DataType: float,b:float'')
   \<and> ToString (RecordType [(''a)'', MapType STRING (TensorType FLOAT))]) =
       Inr ''record(a):map(string,float))''
   \<and> FromString ''record(a):map(string,float))'' = Inl LengthError
   \<and> ToString (RecordType [('' a'', TensorType FLOAT)]) = Inr ''record( a:float)''
   \<and> FromString ''record( a:float)'' = Inr (RecordType [(''a'', TensorType FLOAT)])
   \<and> ToString (RecordType [(''a '', TensorType FLOAT)]) = Inr ''record(a :float)''
   \<and> FromString ''record(a :float)'' = Inr (RecordType [(''a'', TensorType FLOAT)])"
  by code_simp

text \<open>
  C1 (amended): for every descriptor whose element kinds are named ones, whose records and
  unions are not empty, with no type left unset, and whose field and choice names hold none
  of the characters \<^verbatim>\<open>: , ( )\<close> and no whitespace at either end, the serializer returns a
  text and the parser, given that text, returns the descriptor itself: the same structure,
  the same names, the same order.
\<close>

theorem C1_roundtrip:
  "wf_type t \<Longrightarrow> \<exists>s. ToString t = Inr s \<and> FromString s = Inr t"
  using roundtrip [of t] by blast

theorem C1_roundtrip_witness:
  "wf_type (RecordType [(''a'', TensorType FLOAT),
                        (''b c'', MapType STRING (SeqType (SparseTensorType INT32))),
                        ([], UnionType [(''u'', TensorType COMPLEX128)])])
   \<and> ToString (RecordType [(''a'', TensorType FLOAT),
                        (''b c'', MapType STRING (SeqType (SparseTensorType INT32))),
                        ([], UnionType [(''u'', TensorType COMPLEX128)])]) =
       Inr ''record(a:float,b c:map(string,seq(sparse(int32))),:union(u:complex128))''
   \<and> FromString ''record(a:float,b c:map(string,seq(sparse(int32))),:union(u:complex128))'' =
       Inr (RecordType [(''a'', TensorType FLOAT),
                        (''b c'', MapType STRING (SeqType (SparseTensorType INT32))),
                        ([], UnionType [(''u'', TensorType COMPLEX128)])])"
proof -
  let ?t = "RecordType [(''a'', TensorType FLOAT),
                        (''b c'', MapType STRING (SeqType (SparseTensorType INT32))),
                        ([], UnionType [(''u'', TensorType COMPLEX128)])]"
  have w: "wf_type ?t" by code_simp
  have s: "ToString ?t =
      Inr ''record(a:float,b c:map(string,seq(sparse(int32))),:union(u:complex128))''"
    by code_simp
  from C1_roundtrip [OF w] obtain x where x: "ToString ?t = Inr x" "FromString x = Inr ?t"
    by blast
  from x(1) s have "x = ''record(a:float,b c:map(string,seq(sparse(int32))),:union(u:complex128))''"
    by (simp only: sum.inject)
  with x(2) have "FromString
      ''record(a:float,b c:map(string,seq(sparse(int32))),:union(u:complex128))'' = Inr ?t"
    by (simp only:)
  with w s show ?thesis by (intro conjI)
qed

text \<open>
  C2, as the spec states it, fails: \<^verbatim>\<open>ToType(const std::string&)\<close> parses its argument and
  interns the descriptor, whose key is its serialization. Interning the text
  \<^verbatim>\<open>"  seq( float )  "\<close> into the empty registry stores the key \<^verbatim>\<open>seq(float)\<close>, not the
  text, and interning \<^verbatim>\<open>"seq(float)"\<close> afterwards returns the same handle.
\<close>

theorem C2_counterexample:
  "ToType_str ''  seq( float )  '' [] = Inr (0, [(''seq(float)'', SeqType (TensorType FLOAT))])
   \<and> ToType_str ''seq(float)'' [(''seq(float)'', SeqType (TensorType FLOAT))] =
       Inr (0, [(''seq(float)'', SeqType (TensorType FLOAT))])"
  by code_simp

text \<open>
  C2 (amended): the text-keyed intern operation normalizes its argument through parse and
  serialize before the lookup. The key behind the handle it returns is the serialization of
  the parsed descriptor, and any two texts that parse to the same descriptor, however their
  whitespace differs, get the same handle, the second call leaving the registry as it is.
\<close>

theorem C2_text_intern_normalizes:
  assumes "FromString a = Inr t" and "FromString b = Inr t"
    and "ToType_str a m = Inr (h, m')"
  shows "ToType_str b m' = Inr (h, m') \<and> h < length m' \<and> ToString t = Inr (fst (m' ! h))"
proof -
  from assms(1,3) have i: "ToType t m = Inr (h, m')" by (simp add: ToType_str_def)
  then have "ToType t m' = Inr (h, m')" by (rule ToType_again)
  with assms(2) have "ToType_str b m' = Inr (h, m')" by (simp add: ToType_str_def)
  with ToType_handle [OF i] show ?thesis by simp
qed

theorem C2_text_intern_normalizes_witness:
  "FromString ''  seq( float )  '' = Inr (SeqType (TensorType FLOAT))
   \<and> FromString ''seq(float)'' = Inr (SeqType (TensorType FLOAT))
   \<and> ToType_str ''  seq( float )  '' [] = Inr (0, [(''seq(float)'', SeqType (TensorType FLOAT))])
   \<and> ToType_str ''seq(float)'' [(''seq(float)'', SeqType (TensorType FLOAT))] =
       Inr (0, [(''seq(float)'', SeqType (TensorType FLOAT))])
   \<and> ToString (SeqType (TensorType FLOAT)) = Inr ''seq(float)''"
proof -
  have a: "FromString ''  seq( float )  '' = Inr (SeqType (TensorType FLOAT))" by code_simp
  have b: "FromString ''seq(float)'' = Inr (SeqType (TensorType FLOAT))" by code_simp
  have c: "ToType_str ''  seq( float )  '' [] =
      Inr (0, [(''seq(float)'', SeqType (TensorType FLOAT))])" by code_simp
  from C2_text_intern_normalizes [OF a b c] a b c show ?thesis by simp
qed

text \<open>
  C3, as the spec states it, fails: the spelling \<^verbatim>\<open>tensor(int64)\<close> is no keyword of the parser
  and no primitive name, so \<^verbatim>\<open>seq(map(string,tensor(int64)))\<close> is rejected with
  \<^verbatim>\<open>std::invalid_argument\<close> at the value of the map.
\<close>

theorem C3_counterexample:
  "FromString ''seq(map(string,tensor(int64)))'' =
     Inl (InvalidArgument ''Unknown DataType: tensor(int64)'')"
  by code_simp

text \<open>
  C3 (amended): with the dense tensor spelled by its bare element name, the string
  \<^verbatim>\<open>seq(map(string,int64))\<close> parses to a sequence of maps from string to dense tensors of
  int64, and that descriptor serializes back to the identical string.
\<close>

theorem C3_nesting:
  "FromString ''seq(map(string,int64))'' = Inr (SeqType (MapType STRING (TensorType INT64)))
   \<and> ToString (SeqType (MapType STRING (TensorType INT64))) = Inr ''seq(map(string,int64))''"
  by code_simp

text \<open>
  C4, as the spec states it, fails on the count: the serializer names fifteen kinds, with
  fifteen different names, and the allowed names are fifteen.
\<close>

theorem C4_counterexample:
  "card (set (map ToString_DataType
      [BOOL, STRING, FLOAT16, FLOAT, DOUBLE, INT8, INT16, INT32, INT64,
       UINT8, UINT16, UINT32, UINT64, COMPLEX64, COMPLEX128])) = 15
   \<and> card (set GetAllowedDataTypes) = 15"
  by code_simp

text \<open>
  C4 (amended): there are exactly fifteen canonical primitive names. Serialization of
  kinds is injective; each kind other than the sentinel \<open>UNDEFINED\<close> has a name, which is
  allowed and parses back to the kind; every allowed name is the name of such a kind; a
  name that is not allowed is rejected with \<^verbatim>\<open>std::invalid_argument\<close>; and the sentinel
  has no name: serializing it raises \<^verbatim>\<open>std::invalid_argument\<close>, so that only the fifteen
  other kinds serialize, each to an allowed name.
\<close>

theorem C4_primitive_table:
  "card {p. IsValidDataTypeString p} = 15
   \<and> inj ToString_DataType
   \<and> (k \<noteq> UNDEFINED \<longrightarrow>
        (\<exists>p. ToString_DataType k = Inr p \<and> IsValidDataTypeString p
             \<and> FromString_DataType p = Inr k))
   \<and> (IsValidDataTypeString q \<longrightarrow>
        (\<exists>k'. k' \<noteq> UNDEFINED \<and> ToString_DataType k' = Inr q
              \<and> FromString_DataType q = Inr k'))
   \<and> (\<not> IsValidDataTypeString n \<longrightarrow>
        FromString_DataType n = Inl (InvalidArgument (''Unknown DataType: '' @ n)))
   \<and> ToString_DataType UNDEFINED = Inl (InvalidArgument ''Unknown DataType'')
   \<and> (ToString_DataType k = Inr s \<longrightarrow> k \<noteq> UNDEFINED \<and> IsValidDataTypeString s)"
proof (intro conjI impI)
  have "{p. IsValidDataTypeString p} = set GetAllowedDataTypes"
    by (auto simp add: IsValidDataTypeString_def)
  moreover have "card (set GetAllowedDataTypes) = 15" by code_simp
  ultimately show "card {p. IsValidDataTypeString p} = 15" by simp
next
  show "inj ToString_DataType" by (rule ToString_DataType_inj)
next
  assume "k \<noteq> UNDEFINED"
  then obtain p where p: "ToString_DataType k = Inr p" by (cases k) simp_all
  have f: "FromString_DataType p = Inr k" using p by (rule FromString_ToString_DataType)
  then have "IsValidDataTypeString p"
    by (rule_tac ccontr) (simp add: FromString_DataType_def)
  with p f show "\<exists>p. ToString_DataType k = Inr p \<and> IsValidDataTypeString p
      \<and> FromString_DataType p = Inr k" by blast
next
  assume "IsValidDataTypeString q"
  then obtain k' where k': "ToString_DataType k' = Inr q"
    unfolding IsValid_names by (elim disjE) (auto intro: ToString_DataType.simps)
  then have "k' \<noteq> UNDEFINED" by auto
  with k' FromString_ToString_DataType [OF k']
  show "\<exists>k'. k' \<noteq> UNDEFINED \<and> ToString_DataType k' = Inr q \<and> FromString_DataType q = Inr k'"
    by blast
next
  assume "\<not> IsValidDataTypeString n"
  then show "FromString_DataType n = Inl (InvalidArgument (''Unknown DataType: '' @ n))"
    by (simp add: FromString_DataType_def)
next
  show "ToString_DataType UNDEFINED = Inl (InvalidArgument ''Unknown DataType'')" by simp
next
  assume s: "ToString_DataType k = Inr s"
  then show "k \<noteq> UNDEFINED" by auto
  from FromString_ToString_DataType [OF s] show "IsValidDataTypeString s"
    by (rule_tac ccontr) (simp add: FromString_DataType_def)
qed

theorem C4_primitive_table_witness:
  "FLOAT \<noteq> UNDEFINED
   \<and> ToString_DataType FLOAT = Inr ''float''
   \<and> IsValidDataTypeString ''complex128''
   \<and> FromString_DataType ''complex128'' = Inr COMPLEX128
   \<and> \<not> IsValidDataTypeString ''float32''
   \<and> FromString_DataType ''float32'' = Inl (InvalidArgument ''Unknown DataType: float32'')
   \<and> IsValidDataTypeString ''float''"
proof -
  have a: "IsValidDataTypeString ''complex128''" by (simp add: IsValid_names c_defs)
  have b: "\<not> IsValidDataTypeString ''float32''" by (simp add: IsValid_names c_defs)
  have c: "ToString_DataType COMPLEX128 = Inr ''complex128''" by (simp add: c_defs)
  have f: "ToString_DataType FLOAT = Inr ''float''" by (simp add: c_defs)
  note t = C4_primitive_table [of FLOAT "''complex128''" "''float32''" "''float''"]
  from t a obtain k' where k': "ToString_DataType k' = Inr ''complex128''"
    "FromString_DataType ''complex128'' = Inr k'" by blast
  from t have "inj ToString_DataType" by blast
  moreover from k'(1) c have "ToString_DataType k' = ToString_DataType COMPLEX128" by simp
  ultimately have "k' = COMPLEX128" by (rule injD)
  moreover from t f have "IsValidDataTypeString ''float''" by blast
  ultimately show ?thesis using k'(2) t a b by (simp add: c_defs)
qed

text \<open>
  C5: \<^verbatim>\<open>SplitRecords\<close> splits the text of a window that lies in its buffer exactly as the
  depth-aware split does (a comma separates only at depth zero, the depth going up on an
  opening and down on a closing parenthesis), each segment trimmed of whitespace at its
  ends; and the interior of \<^verbatim>\<open>record(a:tensor(float),b:map(string,tensor(int32)))\<close>, as
  \<^verbatim>\<open>FromString\<close> hands it to the splitter, splits into the two segments
  \<^verbatim>\<open>a:tensor(float)\<close> and \<^verbatim>\<open>b:map(string,tensor(int32))\<close>.
\<close>

theorem C5_depth_aware_split:
  "(inb r \<longrightarrow> map str (snd (SplitRecords r [])) = map trim (depth_split 0 [] (str r)))
   \<and> payload ''record'' ''record(a:tensor(float),b:map(string,tensor(int32)))'' =
       ''a:tensor(float),b:map(string,tensor(int32))''
   \<and> map str (snd (SplitRecords
         (payload_window ''record'' ''record(a:tensor(float),b:map(string,tensor(int32)))'') []))
       = [''a:tensor(float)'', ''b:map(string,tensor(int32))'']"
proof (intro conjI impI)
  assume "inb r"
  then show "map str (snd (SplitRecords r [])) = map trim (depth_split 0 [] (str r))"
    by (rule SplitRecords_view)
next
  show "payload ''record'' ''record(a:tensor(float),b:map(string,tensor(int32)))'' =
       ''a:tensor(float),b:map(string,tensor(int32))''"
    by code_simp
next
  show "map str (snd (SplitRecords
         (payload_window ''record'' ''record(a:tensor(float),b:map(string,tensor(int32)))'') []))
       = [''a:tensor(float)'', ''b:map(string,tensor(int32))'']"
    by code_simp
qed

theorem C5_depth_aware_split_witness:
  "inb (StringRange_str '' x , f(y,z) ,w'')
   \<and> map str (snd (SplitRecords (StringRange_str '' x , f(y,z) ,w'') [])) =
       [''x'', ''f(y,z)'', ''w'']
   \<and> map trim (depth_split 0 [] (str (StringRange_str '' x , f(y,z) ,w''))) =
       [''x'', ''f(y,z)'', ''w'']"
proof -
  have a: "inb (StringRange_str '' x , f(y,z) ,w'')" by code_simp
  have b: "map trim (depth_split 0 [] (str (StringRange_str '' x , f(y,z) ,w''))) =
       [''x'', ''f(y,z)'', ''w'']" by code_simp
  from C5_depth_aware_split [of "StringRange_str '' x , f(y,z) ,w''"] a b
  show ?thesis by simp
qed



text \<open>
  C7, as the spec states it, fails where the serialization of a descriptor does not parse:
  interning the serialization of the record with one field named \<^verbatim>\<open>a:b\<close> raises
  \<^verbatim>\<open>std::invalid_argument\<close> and returns no handle.
\<close>

theorem C7_counterexample:
  "ToString (RecordType [(''a:b'', TensorType FLOAT)]) = Inr ''record(a:b:float)''
   \<and> ToType_str ''record(a:b:float)'' [] =
       Inl (InvalidArgument ''Unknown DataType: b:float'')"
  by code_simp

text \<open>
  C7 (amended): for every well-formed descriptor (as in C1), interning its serialization
  returns a handle and interning it again returns the same handle, with the registry
  unchanged by the second call; whenever interning a text, or a descriptor, returns a
  handle, interning it again returns that handle. A call keeps the keys of the registry
  different from each other and the nodes it had in their places, and two handles of a
  registry whose keys differ from each other are equal exactly when the strings behind them
  are equal.
\<close>

theorem C7_interning_idempotent:
  "(wf_type t \<longrightarrow>
      (\<exists>s h m'. ToString t = Inr s \<and> ToType_str s m = Inr (h, m')
          \<and> ToType_str s m' = Inr (h, m') \<and> h < length m' \<and> fst (m' ! h) = s))
   \<and> (ToType_str p m1 = Inr (h1, m1') \<longrightarrow> ToType_str p m1' = Inr (h1, m1'))
   \<and> (ToType u m2 = Inr (h2, m2') \<longrightarrow>
        ToType u m2' = Inr (h2, m2') \<and> h2 < length m2' \<and> ToString u = Inr (fst (m2' ! h2))
        \<and> take (length m2) m2' = m2
        \<and> (distinct (map fst m2) \<longrightarrow> distinct (map fst m2')))
   \<and> (distinct (map fst r) \<and> a < length r \<and> b < length r \<longrightarrow>
        (a = b \<longleftrightarrow> fst (r ! a) = fst (r ! b)))"
proof (intro conjI impI)
  assume w: "wf_type t"
  let ?s = "the_str t"
  from roundtrip [OF w] have s: "ToString t = Inr ?s" and f: "FromString ?s = Inr t"
    by simp_all
  obtain h m' where i: "ToType t m = Inr (h, m')"
  proof (cases "find_node m ?s")
    case None
    with s find_node_new [OF None, of t] that show ?thesis by (simp add: ToType_def)
  next
    case (Some i)
    with s that show ?thesis by (simp add: ToType_def)
  qed
  from ToType_again [OF i] ToType_handle [OF i] i f s
  show "\<exists>s h m'. ToString t = Inr s \<and> ToType_str s m = Inr (h, m')
          \<and> ToType_str s m' = Inr (h, m') \<and> h < length m' \<and> fst (m' ! h) = s"
    by (auto simp add: ToType_str_def)
next
  assume "ToType_str p m1 = Inr (h1, m1')"
  then show "ToType_str p m1' = Inr (h1, m1')"
    by (auto simp add: ToType_str_def ToType_again split: sum.splits)
next
  assume i: "ToType u m2 = Inr (h2, m2')"
  then show "ToType u m2' = Inr (h2, m2')" by (rule ToType_again)
  from ToType_handle [OF i]
  show "h2 < length m2'" "ToString u = Inr (fst (m2' ! h2))" "take (length m2) m2' = m2"
    by simp_all
  assume "distinct (map fst m2)"
  then show "distinct (map fst m2')" using i by (rule ToType_distinct)
next
  assume d: "distinct (map fst r) \<and> a < length r \<and> b < length r"
  then have "fst (r ! a) = fst (r ! b) \<longleftrightarrow> map fst r ! a = map fst r ! b" by simp
  also have "\<dots> \<longleftrightarrow> a = b" using d nth_eq_iff_index_eq [of "map fst r" a b] by simp
  finally show "a = b \<longleftrightarrow> fst (r ! a) = fst (r ! b)" by simp
qed

theorem C7_interning_idempotent_witness:
  "wf_type (SeqType (TensorType FLOAT))
   \<and> ToString (SeqType (TensorType FLOAT)) = Inr ''seq(float)''
   \<and> ToType_str ''seq(float)'' [(''int8'', TensorType INT8)] =
       Inr (1, [(''int8'', TensorType INT8), (''seq(float)'', SeqType (TensorType FLOAT))])
   \<and> ToType_str ''seq(float)''
         [(''int8'', TensorType INT8), (''seq(float)'', SeqType (TensorType FLOAT))] =
       Inr (1, [(''int8'', TensorType INT8), (''seq(float)'', SeqType (TensorType FLOAT))])
   \<and> ToType (TensorType INT8)
         [(''int8'', TensorType INT8), (''seq(float)'', SeqType (TensorType FLOAT))] =
       Inr (0, [(''int8'', TensorType INT8), (''seq(float)'', SeqType (TensorType FLOAT))])
   \<and> distinct (map fst [(''int8'', TensorType INT8), (''seq(float)'', SeqType (TensorType FLOAT))])
   \<and> (0::nat) \<noteq> 1
   \<and> fst ([(''int8'', TensorType INT8), (''seq(float)'', SeqType (TensorType FLOAT))] ! 0) \<noteq>
       fst ([(''int8'', TensorType INT8), (''seq(float)'', SeqType (TensorType FLOAT))] ! 1)"
proof -
  let ?m = "[(''int8'', TensorType INT8)]"
  let ?m' = "[(''int8'', TensorType INT8), (''seq(float)'', SeqType (TensorType FLOAT))]"
  have w: "wf_type (SeqType (TensorType FLOAT))" by simp
  have s: "ToString (SeqType (TensorType FLOAT)) = Inr ''seq(float)''" by code_simp
  have i: "ToType_str ''seq(float)'' ?m = Inr (1, ?m')" by code_simp
  have j: "ToType (TensorType INT8) ?m' = Inr (0, ?m')" by code_simp
  have d: "distinct (map fst ?m') \<and> (0::nat) < length ?m' \<and> (1::nat) < length ?m'" by simp
  note t = C7_interning_idempotent [of "SeqType (TensorType FLOAT)" ?m "''seq(float)''" ?m 1 ?m'
      "TensorType INT8" ?m' 0 ?m' ?m' 0 1]
  from t i have k: "ToType_str ''seq(float)'' ?m' = Inr (1, ?m')" by blast
  from t d have "(0::nat) = 1 \<longleftrightarrow> fst (?m' ! 0) = fst (?m' ! 1)" by blast
  then have n: "fst (?m' ! 0) \<noteq> fst (?m' ! 1)" by simp
  from w s i j k n show ?thesis by simp
qed

text \<open>
  C9, as the spec states it, fails for a literal with whitespace at its ends: the pattern
  of a strip is a window, and the constructor that makes it from the literal trims it. The
  literal \<^verbatim>\<open>" ab "\<close> is longer than the window \<^verbatim>\<open>ab\<close>, yet stripping it from the left or
  from the right succeeds and empties the window; and stripping the literal of three spaces
  from an empty window returns true.
\<close>

theorem C9_counterexample:
  "m_size (StringRange_str ''ab'') < length '' ab ''
   \<and> LStrip_range (StringRange_cstr '' ab '') (StringRange_str ''ab'') =
       (True, \<lparr>buf = ''ab'', m_data = 2, m_size = 0, m_start = 0, m_end = 2\<rparr>)
   \<and> RStrip_range (StringRange_cstr '' ab '') (StringRange_str ''ab'') =
       (True, \<lparr>buf = ''ab'', m_data = 0, m_size = 0, m_start = 0, m_end = 0\<rparr>)
   \<and> m_size (StringRange_str []) < length ''   ''
   \<and> LStrip_range (StringRange_cstr ''   '') (StringRange_str []) = (True, StringRange_str [])"
  by code_simp

text \<open>
  C9 (amended): on an empty window the trims, the parenthesis strip and the search change
  nothing and report so, a pattern matches at either end exactly when it is empty, and a
  strip of zero characters succeeds. A strip of more characters than the window holds, by
  count or by a pattern whose own window is longer, from the left or from the right,
  returns false and leaves the window as it was; the window of a literal with no whitespace
  at its ends and no NUL in it is the literal, so this holds for every such literal longer
  than the window. No operation of the scanner has an error result.
\<close>

theorem C9_scanner_total:
  "(m_size e = 0 \<longrightarrow>
      LStrip_ws e = (False, e) \<and> RStrip_ws e = (False, e) \<and> LAndRStrip e = (False, e)
      \<and> ParensWhitespaceStrip e = e \<and> Find e c = None
      \<and> StartsWith e p = (m_size p = 0) \<and> EndsWith e p = (m_size p = 0)
      \<and> LStrip_range p e = (m_size p = 0, e) \<and> RStrip_range p e = (m_size p = 0, e)
      \<and> LStrip_n 0 e = (True, e) \<and> RStrip_n 0 e = (True, e)
      \<and> snd (SplitRecords e []) = [GetCaptured (RestartCapture e)])
   \<and> (m_size r < n \<longrightarrow> LStrip_n n r = (False, r) \<and> RStrip_n n r = (False, r))
   \<and> (m_size r < m_size q \<longrightarrow>
        \<not> StartsWith r q \<and> \<not> EndsWith r q
        \<and> LStrip_range q r = (False, r) \<and> RStrip_range q r = (False, r))
   \<and> (clean lit \<and> CHR 0x00 \<notin> set lit \<and> m_size w < length lit \<longrightarrow>
        LStrip_range (StringRange_cstr lit) w = (False, w)
        \<and> RStrip_range (StringRange_cstr lit) w = (False, w))"
proof (intro conjI impI)
  assume z: "m_size e = 0"
  have l: "LStrip_loop e 0 = 0" using z by (subst LStrip_loop.simps) simp
  have rr: "RStrip_loop e 0 = 0" using z by (subst RStrip_loop.simps) simp
  show lw: "LStrip_ws e = (False, e)" using l by (simp add: LStrip_ws_def)
  show rw: "RStrip_ws e = (False, e)" using rr by (simp add: RStrip_ws_def)
  show lr: "LAndRStrip e = (False, e)" using lw rw by (simp add: LAndRStrip_def)
  have no: "\<not> StartsWith e (StringRange_cstr ''('')" using z
    by (simp add: StartsWith_def cstr_open)
  have nc: "\<not> EndsWith e (StringRange_cstr '')'')" using z
    by (simp add: EndsWith_def cstr_close)
  show "ParensWhitespaceStrip e = e"
    using lw rw lr no nc
    by (simp add: ParensWhitespaceStrip_def LStrip_range_def RStrip_range_def)
  show "Find e c = None" using z unfolding Find_def by (subst Find_loop.simps) simp
  show sw: "StartsWith e p = (m_size p = 0)" using z by (auto simp add: StartsWith_def)
  show ew: "EndsWith e p = (m_size p = 0)" using z by (auto simp add: EndsWith_def)
  show l0: "LStrip_n 0 e = (True, e)" by (simp add: LStrip_n_def)
  show r0: "RStrip_n 0 e = (True, e)" by (simp add: RStrip_n_def)
  show "LStrip_range p e = (m_size p = 0, e)"
    using sw l0 by (cases "m_size p = 0") (simp_all add: LStrip_range_def)
  show "RStrip_range p e = (m_size p = 0, e)"
    using ew r0 by (cases "m_size p = 0") (simp_all add: RStrip_range_def)
  show "snd (SplitRecords e []) = [GetCaptured (RestartCapture e)]"
    using z unfolding SplitRecords_def
    by (subst SplitRecords_loop.simps) (simp add: RestartCapture_def)
next
  assume "m_size r < n"
  then show "LStrip_n n r = (False, r)" by (simp add: LStrip_n_def)
next
  assume "m_size r < n"
  then show "RStrip_n n r = (False, r)" by (simp add: RStrip_n_def)
next
  assume "m_size r < m_size q"
  then show "\<not> StartsWith r q" by (simp add: StartsWith_def)
next
  assume "m_size r < m_size q"
  then show "\<not> EndsWith r q" by (simp add: EndsWith_def)
next
  assume "m_size r < m_size q"
  then show "LStrip_range q r = (False, r)" by (simp add: LStrip_range_def StartsWith_def)
next
  assume "m_size r < m_size q"
  then show "RStrip_range q r = (False, r)" by (simp add: RStrip_range_def EndsWith_def)
next
  assume a: "clean lit \<and> CHR 0x00 \<notin> set lit \<and> m_size w < length lit"
  then have "m_size w < m_size (StringRange_cstr lit)" by (simp add: cstr_clean)
  then show "LStrip_range (StringRange_cstr lit) w = (False, w)"
    by (simp add: LStrip_range_def StartsWith_def)
next
  assume a: "clean lit \<and> CHR 0x00 \<notin> set lit \<and> m_size w < length lit"
  then have "m_size w < m_size (StringRange_cstr lit)" by (simp add: cstr_clean)
  then show "RStrip_range (StringRange_cstr lit) w = (False, w)"
    by (simp add: RStrip_range_def EndsWith_def)
qed

theorem C9_scanner_total_witness:
  "m_size (StringRange_str ''   '') = 0
   \<and> LAndRStrip (StringRange_str ''   '') = (False, StringRange_str ''   '')
   \<and> LStrip_range (StringRange_cstr ''seq'') (StringRange_str ''   '') =
       (False, StringRange_str ''   '')
   \<and> m_size (StringRange_str ''ab'') < 3
   \<and> LStrip_n 3 (StringRange_str ''ab'') = (False, StringRange_str ''ab'')
   \<and> RStrip_n 3 (StringRange_str ''ab'') = (False, StringRange_str ''ab'')
   \<and> m_size (StringRange_str ''ab'') < m_size (StringRange_cstr '' seq '')
   \<and> LStrip_range (StringRange_cstr '' seq '') (StringRange_str ''ab'') =
       (False, StringRange_str ''ab'')
   \<and> RStrip_range (StringRange_cstr '' seq '') (StringRange_str ''ab'') =
       (False, StringRange_str ''ab'')
   \<and> clean ''map'' \<and> CHR 0x00 \<notin> set ''map'' \<and> m_size (StringRange_str ''ma'') < length ''map''
   \<and> LStrip_range (StringRange_cstr ''map'') (StringRange_str ''ma'') =
       (False, StringRange_str ''ma'')
   \<and> RStrip_range (StringRange_cstr ''map'') (StringRange_str ''ma'') =
       (False, StringRange_str ''ma'')"
proof -
  have a: "m_size (StringRange_str ''   '') = 0" by code_simp
  have b: "m_size (StringRange_str ''ab'') < 3" by code_simp
  have c: "m_size (StringRange_str ''ab'') < m_size (StringRange_cstr '' seq '')" by code_simp
  have d: "m_size (StringRange_cstr ''seq'') \<noteq> 0" by code_simp
  have e: "clean ''map'' \<and> CHR 0x00 \<notin> set ''map''
      \<and> m_size (StringRange_str ''ma'') < length ''map''" by code_simp
  from C9_scanner_total [of "StringRange_str ''   ''" "CHR '',''" "StringRange_cstr ''seq''"
      "StringRange_str ''ab''" 3 "StringRange_cstr '' seq ''" "''map''" "StringRange_str ''ma''"]
    a b c d e
  show ?thesis by simp
qed

text \<open>
  C10: the serializer writes a dense tensor as the name of its element kind alone
  (\<^verbatim>\<open>float\<close> for a dense tensor of 32-bit floats): an allowed name, with no parenthesis in
  it, which parses back to the dense tensor. The parser returns a dense tensor only for a
  text that, trimmed, is an allowed name, and that name is then the serialization of the
  tensor; such a text has no parenthesis in it, so no wrapped spelling is accepted, and
  \<^verbatim>\<open>tensor(float)\<close>, which is no allowed name, is rejected.
\<close>

theorem C10_dense_tensor_bare_name:
  "ToString (TensorType e) = ToString_DataType e
   \<and> ToString (TensorType FLOAT) = Inr ''float''
   \<and> (e \<noteq> UNDEFINED \<longrightarrow>
        (\<exists>p. ToString (TensorType e) = Inr p \<and> IsValidDataTypeString p
             \<and> CHR ''('' \<notin> set p \<and> FromString p = Inr (TensorType e)))
   \<and> (FromString src = Inr (TensorType k) \<longrightarrow>
        IsValidDataTypeString (trim src) \<and> ToString (TensorType k) = Inr (trim src)
        \<and> CHR ''('' \<notin> set src)
   \<and> \<not> IsValidDataTypeString ''tensor(float)''
   \<and> FromString ''tensor(float)'' = Inl (InvalidArgument ''Unknown DataType: tensor(float)'')"
proof (intro conjI impI)
  show "ToString (TensorType e) = ToString_DataType e" by simp
  show "ToString (TensorType FLOAT) = Inr ''float''" by (simp add: c_defs)
  show "\<not> IsValidDataTypeString ''tensor(float)''" by code_simp
  show "FromString ''tensor(float)'' = Inl (InvalidArgument ''Unknown DataType: tensor(float)'')"
    by code_simp
next
  assume "e \<noteq> UNDEFINED"
  then obtain p where p: "ToString_DataType e = Inr p" "FromString_DataType p = Inr e"
    "clean p" "plain p"
    "\<not> has_tag ''seq'' p" "\<not> has_tag ''map'' p" "\<not> has_tag ''record'' p"
    "\<not> has_tag ''union'' p" "\<not> has_tag ''sparse'' p"
    by (rule prim_name)
  have v: "IsValidDataTypeString p"
    using p(2) by (rule_tac ccontr) (simp add: FromString_DataType_def)
  have "FromString p = Inr (TensorType e)" using p by (simp add: FromString_dense trim_clean)
  with p(1,4) v
  show "\<exists>p. ToString (TensorType e) = Inr p \<and> IsValidDataTypeString p
             \<and> CHR ''('' \<notin> set p \<and> FromString p = Inr (TensorType e)"
    by (auto simp add: plain_def)
next
  assume a: "FromString src = Inr (TensorType k)"
  then have "FromString_DataType (trim src) = Inr k"
    by (subst (asm) FromString_unfold) (auto split: if_splits sum.splits option.splits)
  then have k: "ToString_DataType k = Inr (trim src)" and v: "IsValidDataTypeString (trim src)"
    using FromString_DataType_Inr [of "trim src" k]
    by (simp_all, rule_tac ccontr, simp add: FromString_DataType_def)
  show "IsValidDataTypeString (trim src)" by (rule v)
  show "ToString (TensorType k) = Inr (trim src)" using k by simp
  show "CHR ''('' \<notin> set src"
    using allowed_no_paren [OF v] set_trim [of "CHR ''(''" src] by (auto simp add: isspace_def)
qed

theorem C10_dense_tensor_bare_name_witness:
  "INT64 \<noteq> UNDEFINED
   \<and> ToString (TensorType INT64) = Inr ''int64''
   \<and> FromString ''int64'' = Inr (TensorType INT64)
   \<and> FromString '' uint8 '' = Inr (TensorType UINT8)
   \<and> IsValidDataTypeString (trim '' uint8 '')
   \<and> ToString (TensorType UINT8) = Inr (trim '' uint8 '')
   \<and> CHR ''('' \<notin> set '' uint8 ''"
proof -
  have s: "FromString '' uint8 '' = Inr (TensorType UINT8)" by code_simp
  have i: "ToString (TensorType INT64) = Inr ''int64''" by code_simp
  note t = C10_dense_tensor_bare_name [of INT64 "'' uint8 ''" UINT8]
  from t obtain p where p: "ToString (TensorType INT64) = Inr p"
    "FromString p = Inr (TensorType INT64)" by blast
  from p(1) i have "p = ''int64''" by (simp only: sum.inject)
  with p(2) have f: "FromString ''int64'' = Inr (TensorType INT64)" by (simp only:)
  from t s have u: "IsValidDataTypeString (trim '' uint8 '')
      \<and> ToString (TensorType UINT8) = Inr (trim '' uint8 '')
      \<and> CHR ''('' \<notin> set '' uint8 ''" by blast
  have n: "INT64 \<noteq> UNDEFINED" by simp
  from n i f s u show ?thesis by blast
qed

end
